theory Spec2Isabelle
  imports Complex_Main "HOL-Library.Word"
begin

unbundle bit_operations_syntax

section \<open>The proxy cache (cache.c, cache.h)\<close>

text \<open>
  The cache of the proxy is a doubly linked list of heap objects. The model keeps the
  pointers: an object lives at an address of an explicit object store, a C pointer is an
  optional address (\<open>None\<close> is \<open>NULL\<close>), and \<open>free\<close> removes the cell
  from the store. Dereferencing \<open>NULL\<close> or a released cell is a value of type
  \<open>error\<close>.

  The byte counts have the C type \<open>int\<close>, of 32 bits: they are integers between
  \<open>- 2^31\<close> and \<open>2^31 - 1\<close> (\<open>int_range\<close>), and the sum and the difference
  that the cache forms wrap around into this range (\<open>int_wrap\<close>), as the compiled
  code does where the C standard leaves the overflow undefined.
\<close>

definition int_range :: "int \<Rightarrow> bool" where
  "int_range x \<longleftrightarrow> - (2 ^ 31) \<le> x \<and> x < 2 ^ 31"

definition int_wrap :: "int \<Rightarrow> int" where
  "int_wrap x = (x + 2 ^ 31) mod 2 ^ 32 - 2 ^ 31"

type_synonym addr = nat
type_synonym ptr = "addr option"

datatype error = NullDeref | Dangling

record object =
  request :: string
  response :: string
  size_obj :: int
  prev :: ptr
  "next" :: ptr

text \<open>
  The fields \<open>bytes_left\<close>, \<open>MRA\<close> and \<open>LRA\<close> are those of \<open>struct cache\<close>;
  \<open>objs\<close> is the store of the objects allocated by \<open>new_object\<close>.
\<close>

record cache =
  bytes_left :: int
  MRA :: ptr
  LRA :: ptr
  objs :: "addr \<Rightarrow> object option"

definition cache_init :: "int \<Rightarrow> cache" where
  "cache_init max_size =
     \<lparr>bytes_left = max_size, MRA = None, LRA = None, objs = (\<lambda>_. None)\<rparr>"

text \<open>\<open>new_object\<close>: the address \<open>a\<close> is the one \<open>Malloc\<close> returns.\<close>

definition new_object :: "addr \<Rightarrow> string \<Rightarrow> string \<Rightarrow> int \<Rightarrow> cache \<Rightarrow> cache" where
  "new_object a req resp obj_size C =
     C\<lparr>objs := (objs C)(a := Some \<lparr>request = req, response = resp, size_obj = obj_size,
                                     prev = None, next = None\<rparr>)\<rparr>"

text \<open>Reading and writing through a pointer.\<close>

definition deref :: "cache \<Rightarrow> ptr \<Rightarrow> error + object" where
  "deref C p =
     (case p of
        None \<Rightarrow> Inl NullDeref
      | Some a \<Rightarrow> (case objs C a of None \<Rightarrow> Inl Dangling | Some ob \<Rightarrow> Inr ob))"

definition set_prev :: "cache \<Rightarrow> ptr \<Rightarrow> ptr \<Rightarrow> error + cache" where
  "set_prev C p v =
     (case p of
        None \<Rightarrow> Inl NullDeref
      | Some a \<Rightarrow>
          (case objs C a of
             None \<Rightarrow> Inl Dangling
           | Some ob \<Rightarrow> Inr (C\<lparr>objs := (objs C)(a := Some (ob\<lparr>prev := v\<rparr>))\<rparr>)))"

definition set_next :: "cache \<Rightarrow> ptr \<Rightarrow> ptr \<Rightarrow> error + cache" where
  "set_next C p v =
     (case p of
        None \<Rightarrow> Inl NullDeref
      | Some a \<Rightarrow>
          (case objs C a of
             None \<Rightarrow> Inl Dangling
           | Some ob \<Rightarrow> Inr (C\<lparr>objs := (objs C)(a := Some (ob\<lparr>next := v\<rparr>))\<rparr>)))"

definition free_obj :: "cache \<Rightarrow> ptr \<Rightarrow> error + cache" where
  "free_obj C p =
     (case p of
        None \<Rightarrow> Inl NullDeref
      | Some a \<Rightarrow>
          (case objs C a of
             None \<Rightarrow> Inl Dangling
           | Some ob \<Rightarrow> Inr (C\<lparr>objs := (objs C)(a := None)\<rparr>)))"

text \<open>
  \<open>cache_remove\<close>: the four cases of the source in its order. The strings of the
  object are part of the cell, so the three calls of \<open>free\<close> are the one release of
  the cell.
\<close>

definition cache_remove :: "cache \<Rightarrow> ptr \<Rightarrow> error + cache" where
  "cache_remove C obj =
     (case deref C obj of
        Inl e \<Rightarrow> Inl e
      | Inr ob \<Rightarrow>
          (let C1 = C\<lparr>bytes_left := int_wrap (bytes_left C + size_obj ob)\<rparr> in
           (case
              (if prev ob = None \<and> next ob = None then
                 Inr (C1\<lparr>MRA := None, LRA := None\<rparr>)
               else if prev ob = None then
                 (let C2 = C1\<lparr>MRA := next ob\<rparr> in set_prev C2 (MRA C2) None)
               else if next ob = None then
                 (let C2 = C1\<lparr>LRA := prev ob\<rparr> in set_next C2 (LRA C2) None)
               else
                 (case set_next C1 (prev ob) (next ob) of
                    Inl e \<Rightarrow> Inl e
                  | Inr C2 \<Rightarrow> set_prev C2 (next ob) (prev ob)))
            of
              Inl e \<Rightarrow> Inl e
            | Inr C3 \<Rightarrow> free_obj C3 obj)))"

text \<open>
  \<open>evict\<close>: the loop has no bound in the source, so a run that does not return is the
  value \<open>None\<close>.
\<close>

partial_function (option) evict :: "cache \<Rightarrow> int \<Rightarrow> (error + cache) option" where
  "evict C req_size =
     (if bytes_left C < req_size then
        (case cache_remove C (LRA C) of
           Inl e \<Rightarrow> Some (Inl e)
         | Inr C' \<Rightarrow> evict C' req_size)
      else Some (Inr C))"

definition cache_insert :: "cache \<Rightarrow> ptr \<Rightarrow> (error + cache) option" where
  "cache_insert C obj =
     (case deref C obj of
        Inl e \<Rightarrow> Some (Inl e)
      | Inr ob \<Rightarrow>
          (case evict C (size_obj ob) of
             None \<Rightarrow> None
           | Some (Inl e) \<Rightarrow> Some (Inl e)
           | Some (Inr C1) \<Rightarrow>
               (case deref C1 obj of
                  Inl e \<Rightarrow> Some (Inl e)
                | Inr ob1 \<Rightarrow>
                    (let C2 = C1\<lparr>bytes_left := int_wrap (bytes_left C1 - size_obj ob1)\<rparr> in
                     if MRA C2 = None then Some (Inr (C2\<lparr>MRA := obj, LRA := obj\<rparr>))
                     else
                       (let temp = MRA C2; C3 = C2\<lparr>MRA := obj\<rparr> in
                        (case set_prev C3 obj None of
                           Inl e \<Rightarrow> Some (Inl e)
                         | Inr C4 \<Rightarrow>
                             (case set_next C4 obj temp of
                                Inl e \<Rightarrow> Some (Inl e)
                              | Inr C5 \<Rightarrow> Some (set_prev C5 temp obj))))))))"

text \<open>
  \<open>find_request\<close>: \<open>scan_from\<close> is the \<open>for\<close> loop, started at \<open>MRA\<close>. The strings
  hold no NUL byte, so \<open>strcmp\<close> returns 0 exactly on equal strings. The cache is
  read only: the result is a pointer and the cache stays as it is.
\<close>

partial_function (option) scan_from :: "cache \<Rightarrow> ptr \<Rightarrow> string \<Rightarrow> (error + ptr) option" where
  "scan_from C scan req =
     (case scan of
        None \<Rightarrow> Some (Inr None)
      | Some a \<Rightarrow>
          (case objs C a of
             None \<Rightarrow> Some (Inl Dangling)
           | Some ob \<Rightarrow>
               (if req = request ob then Some (Inr (Some a))
                else scan_from C (next ob) req)))"

definition find_request :: "cache \<Rightarrow> string \<Rightarrow> (error + ptr) option" where
  "find_request C req = scan_from C (MRA C) req"


subsection \<open>Sequences of cache operations\<close>

text \<open>
  The operations the proxy applies to its cache. An insertion is \<open>new_object\<close>
  followed by \<open>cache_insert\<close>, as in \<open>new_request\<close>; a lookup returns a pointer
  and leaves the cache as it is.
\<close>

datatype op = Insert addr string string int | Remove addr | Find string

fun cache_op :: "cache \<Rightarrow> op \<Rightarrow> (error + cache) option" where
  "cache_op C (Insert a req resp obj_size) =
     cache_insert (new_object a req resp obj_size C) (Some a)"
| "cache_op C (Remove a) = Some (cache_remove C (Some a))"
| "cache_op C (Find req) =
     (case find_request C req of
        None \<Rightarrow> None
      | Some (Inl e) \<Rightarrow> Some (Inl e)
      | Some (Inr p) \<Rightarrow> Some (Inr C))"

text \<open>
  An object is resident when the \<open>next\<close> pointers lead to it from \<open>MRA\<close>.
  \<open>op_ok\<close> is the contract of an operation: \<open>Malloc\<close> returns a cell that is
  not in use, the inserted size is an \<open>int\<close> and at most the capacity, and a removed
  object is resident. \<open>op_bytes\<close> adds that the inserted size is a byte count: it is
  not negative.
\<close>

inductive resident :: "cache \<Rightarrow> addr \<Rightarrow> bool" for C :: cache where
  resident_head: "MRA C = Some a \<Longrightarrow> resident C a"
| resident_next: "resident C a \<Longrightarrow> objs C a = Some ob \<Longrightarrow> next ob = Some b \<Longrightarrow> resident C b"

fun op_ok :: "int \<Rightarrow> cache \<Rightarrow> op \<Rightarrow> bool" where
  "op_ok max_size C (Insert a req resp obj_size) \<longleftrightarrow>
     objs C a = None \<and> int_range obj_size \<and> obj_size \<le> max_size"
| "op_ok max_size C (Remove a) \<longleftrightarrow> resident C a"
| "op_ok max_size C (Find req) \<longleftrightarrow> True"

fun op_bytes :: "op \<Rightarrow> bool" where
  "op_bytes (Insert a req resp obj_size) \<longleftrightarrow> 0 \<le> obj_size"
| "op_bytes (Remove a) \<longleftrightarrow> True"
| "op_bytes (Find req) \<longleftrightarrow> True"

text \<open>
  \<open>reach\<close>: the caches that a sequence of operations builds from \<open>cache_init\<close>
  (whose argument is an \<open>int\<close>). \<open>reach_bytes\<close>: the same when every inserted size
  is a byte count. \<open>filled\<close>: the caches of the sequences of the proxy (insertions and
  lookups), with the addresses inserted so far, the last one first.
\<close>

inductive reach :: "int \<Rightarrow> cache \<Rightarrow> bool" for max_size :: int where
  reach_init: "int_range max_size \<Longrightarrow> reach max_size (cache_init max_size)"
| reach_op: "reach max_size C \<Longrightarrow> op_ok max_size C op \<Longrightarrow> cache_op C op = Some (Inr C')
               \<Longrightarrow> reach max_size C'"

inductive reach_bytes :: "int \<Rightarrow> cache \<Rightarrow> bool" for max_size :: int where
  reach_bytes_init: "int_range max_size \<Longrightarrow> reach_bytes max_size (cache_init max_size)"
| reach_bytes_op: "reach_bytes max_size C \<Longrightarrow> op_ok max_size C op \<Longrightarrow> op_bytes op \<Longrightarrow>
     cache_op C op = Some (Inr C') \<Longrightarrow> reach_bytes max_size C'"

inductive filled :: "int \<Rightarrow> cache \<Rightarrow> addr list \<Rightarrow> bool" for max_size :: int where
  filled_init: "int_range max_size \<Longrightarrow> filled max_size (cache_init max_size) []"
| filled_insert: "filled max_size C hist \<Longrightarrow> op_ok max_size C (Insert a req resp obj_size) \<Longrightarrow>
     cache_op C (Insert a req resp obj_size) = Some (Inr C') \<Longrightarrow> filled max_size C' (a # hist)"
| filled_find: "filled max_size C hist \<Longrightarrow> cache_op C (Find req) = Some (Inr C') \<Longrightarrow>
     filled max_size C' hist"

subsection \<open>The list a cache holds\<close>

text \<open>
  \<open>seg h p xs q\<close>: the cells at the addresses \<open>xs\<close> are linked in this order,
  the first one with \<open>prev = p\<close> and the last one with \<open>next = q\<close>. \<open>dll C xs\<close>:
  the cache holds exactly the list \<open>xs\<close>, from \<open>MRA\<close> to \<open>LRA\<close>.
\<close>

definition first_ptr :: "addr list \<Rightarrow> ptr \<Rightarrow> ptr" where
  "first_ptr xs q = (case xs of [] \<Rightarrow> q | b # _ \<Rightarrow> Some b)"

definition last_ptr :: "addr list \<Rightarrow> ptr \<Rightarrow> ptr" where
  "last_ptr xs p = (if xs = [] then p else Some (last xs))"

fun seg :: "(addr \<Rightarrow> object option) \<Rightarrow> ptr \<Rightarrow> addr list \<Rightarrow> ptr \<Rightarrow> bool" where
  "seg h p [] q = True"
| "seg h p (a # as) q =
     (case h a of
        None \<Rightarrow> False
      | Some ob \<Rightarrow> prev ob = p \<and> next ob = first_ptr as q \<and> seg h (Some a) as q)"

definition dll :: "cache \<Rightarrow> addr list \<Rightarrow> bool" where
  "dll C xs \<longleftrightarrow>
     distinct xs \<and> seg (objs C) None xs None \<and>
     MRA C = first_ptr xs None \<and> LRA C = last_ptr xs None"

definition size_at :: "cache \<Rightarrow> addr \<Rightarrow> int" where
  "size_at C a = (case objs C a of None \<Rightarrow> 0 | Some ob \<Rightarrow> size_obj ob)"

definition request_at :: "cache \<Rightarrow> addr \<Rightarrow> string option" where
  "request_at C a = map_option request (objs C a)"

definition total_size :: "cache \<Rightarrow> addr list \<Rightarrow> int" where
  "total_size C xs = sum_list (map (size_at C) xs)"

text \<open>
  \<open>keeps C C' b\<close>: the cell \<open>b\<close> has the same request, response and size
  in both caches (its links may differ).
\<close>

definition payload :: "object \<Rightarrow> string \<times> string \<times> int" where
  "payload ob = (request ob, response ob, size_obj ob)"

definition keeps :: "cache \<Rightarrow> cache \<Rightarrow> addr \<Rightarrow> bool" where
  "keeps C C' b \<longleftrightarrow> map_option payload (objs C' b) = map_option payload (objs C b)"

text \<open>
  \<open>cache_inv\<close>: the list is well formed, and the sizes and the counter add up to the
  capacity up to a multiple of \<open>2^32\<close>. \<open>bytes_inv\<close>: moreover no resident size is
  negative, and the sizes and the counter add up to the capacity.
\<close>

definition cache_inv :: "int \<Rightarrow> cache \<Rightarrow> addr list \<Rightarrow> bool" where
  "cache_inv max_size C xs \<longleftrightarrow>
     dll C xs \<and> int_range max_size \<and> int_range (bytes_left C) \<and>
     2 ^ 32 dvd (total_size C xs + bytes_left C - max_size)"

definition bytes_inv :: "int \<Rightarrow> cache \<Rightarrow> addr list \<Rightarrow> bool" where
  "bytes_inv max_size C xs \<longleftrightarrow>
     cache_inv max_size C xs \<and> (\<forall>b \<in> set xs. 0 \<le> size_at C b) \<and>
     total_size C xs + bytes_left C = max_size"

text \<open>
  The caches of scenario E of the specification (capacity 100, an object of 60 bytes, then
  one of 50 bytes), a cache with two objects under the same request, and the cache of
  capacity \<open>2^31 - 1\<close> after the insertion of an object of size -1.
\<close>

definition cache_A :: cache where
  "cache_A = \<lparr>bytes_left = 40, MRA = Some 10, LRA = Some 10,
      objs = (\<lambda>_. None)(10 := Some \<lparr>request = ''o1'', response = ''r1'', size_obj = 60,
                                     prev = None, next = None\<rparr>)\<rparr>"

definition cache_E :: cache where
  "cache_E = \<lparr>bytes_left = 50, MRA = Some 20, LRA = Some 20,
      objs = (\<lambda>_. None)(20 := Some \<lparr>request = ''o2'', response = ''r2'', size_obj = 50,
                                     prev = None, next = None\<rparr>)\<rparr>"


definition cache_D :: cache where
  "cache_D = \<lparr>bytes_left = 20, MRA = Some 20, LRA = Some 10,
      objs = (\<lambda>_. None)(20 := Some \<lparr>request = ''o1'', response = ''r2'', size_obj = 20,
                                      prev = None, next = Some 10\<rparr>,
                           10 := Some \<lparr>request = ''o1'', response = ''r1'', size_obj = 60,
                                      prev = Some 20, next = None\<rparr>)\<rparr>"


section \<open>The allocator (mm.c)\<close>

text \<open>
  The heap is a memory of 8-byte cells: \<open>GET\<close> and \<open>PUT\<close> read and write an
  \<open>unsigned long\<close> at an address, and every address the allocator forms is the start of
  the heap plus a multiple of 8. \<open>size_t\<close>, \<open>unsigned long\<close> and the pointers are
  64-bit words, so sums and differences wrap around as they do in the machine; \<open>NULL\<close>
  is the word 0. The three globals of mm.c and the three of the memory system are the
  fields of the state.
\<close>

type_synonym word64 = "64 word"

datatype fault = Segfault

record heap =
  mem :: "word64 \<Rightarrow> word64"
  heap_listp :: word64
  seg_listp :: word64
  last_segp :: word64
  mem_start_brk :: word64
  mem_brk :: word64
  mem_max_addr :: word64

text \<open>
  Modelled from the spec: \<open>mem_sbrk\<close> and \<open>mem_init\<close> belong to memlib.c, which is
  not among the sources. The specification asks for a grow-by-bytes primitive that returns
  the start of the added region, or a failure value, which the callers compare with
  \<open>(void *)-1\<close>; the region that the memory system holds starts at
  \<open>mem_start_brk\<close> and ends at \<open>mem_max_addr\<close>.
\<close>

definition mem_sbrk :: "heap \<Rightarrow> word64 \<Rightarrow> word64 \<times> heap" where
  "mem_sbrk h incr =
     (if unat (mem_max_addr h) < unat (mem_brk h) + unat incr then (- 1, h)
      else (mem_brk h, h\<lparr>mem_brk := mem_brk h + incr\<rparr>))"

definition mem_init :: "word64 \<Rightarrow> word64 \<Rightarrow> heap" where
  "mem_init start max_heap =
     \<lparr>mem = (\<lambda>_. 0), heap_listp = 0, seg_listp = 0, last_segp = 0,
      mem_start_brk = start, mem_brk = start, mem_max_addr = start + max_heap\<rparr>"

subsection \<open>The macros\<close>

text \<open>
  \<open>~0x7\<close> is the \<open>int\<close> -8, converted to \<open>size_t\<close> by the conjunction:
  all bits but the low three.
\<close>

definition ALIGN :: "word64 \<Rightarrow> word64" where
  "ALIGN p = (p + 7) AND NOT 7"

definition PACK :: "word64 \<Rightarrow> word64 \<Rightarrow> word64" where
  "PACK sz alloc = sz OR alloc"

definition GET :: "heap \<Rightarrow> word64 \<Rightarrow> word64" where
  "GET h p = mem h p"

definition PUT :: "heap \<Rightarrow> word64 \<Rightarrow> word64 \<Rightarrow> heap" where
  "PUT h p val = h\<lparr>mem := (mem h)(p := val)\<rparr>"

definition GET_SIZE :: "heap \<Rightarrow> word64 \<Rightarrow> word64" where
  "GET_SIZE h p = GET h p AND NOT 7"

definition GET_ALLOC :: "heap \<Rightarrow> word64 \<Rightarrow> word64" where
  "GET_ALLOC h p = GET h p AND 1"

definition HDRP :: "word64 \<Rightarrow> word64" where
  "HDRP bp = bp - 8"

definition FTRP :: "heap \<Rightarrow> word64 \<Rightarrow> word64" where
  "FTRP h bp = bp + GET_SIZE h (HDRP bp) - 16"

definition NEXT_BLKP :: "heap \<Rightarrow> word64 \<Rightarrow> word64" where
  "NEXT_BLKP h bp = bp + GET_SIZE h (bp - 8)"

definition PREV_BLKP :: "heap \<Rightarrow> word64 \<Rightarrow> word64" where
  "PREV_BLKP h bp = bp - GET_SIZE h (bp - 16)"

definition NEXT_PTR :: "word64 \<Rightarrow> word64" where
  "NEXT_PTR bp = bp"

definition PREV_PTR :: "word64 \<Rightarrow> word64" where
  "PREV_PTR bp = bp + 8"

definition NEXT_FREEBLKP :: "heap \<Rightarrow> word64 \<Rightarrow> word64" where
  "NEXT_FREEBLKP h bp = GET h (NEXT_PTR bp)"

definition PREV_FREEBLKP :: "heap \<Rightarrow> word64 \<Rightarrow> word64" where
  "PREV_FREEBLKP h bp = GET h (PREV_PTR bp)"

subsection \<open>Size classes and free lists\<close>

text \<open>
  \<open>bucket\<close>: \<open>bucket_loop\<close> is the \<open>while\<close> loop, with the counter \<open>log\<close>
  of the source as \<open>lg\<close>; the constants are \<open>2 * QSIZE = 32\<close>,
  \<open>LASTCLASS = 1296\<close>, \<open>RATIO = 6\<close>, \<open>SEGS = 5\<close> and \<open>DSIZE = 8\<close>.
\<close>

function bucket_loop :: "word64 \<Rightarrow> int \<Rightarrow> int" where
  "bucket_loop num lg = (if num \<noteq> 0 then bucket_loop (num div 6) (lg + 1) else lg)"
  by pat_completeness auto
termination
proof (relation "measure (\<lambda>(num, lg). unat num)")
  show "wf (measure (\<lambda>(num :: word64, lg :: int). unat num))" by simp
next
  fix num :: word64 and lg :: int
  assume "num \<noteq> 0"
  then have "0 < unat num" by (simp add: unat_gt_0)
  then have "unat num div 6 < unat num" by simp
  then show "((num div 6, lg + 1), (num, lg)) \<in> measure (\<lambda>(num, lg). unat num)"
    by (simp add: unat_div)
qed

definition bucket :: "word64 \<Rightarrow> word64" where
  "bucket num0 =
     (let num = num0 div (2 * 16) in
      if 1296 \<le> num then (5 - 1) * 8
      else word_of_int (bucket_loop (num div 6) 0 * 8))"

definition splice_together :: "heap \<Rightarrow> word64 \<Rightarrow> word64 \<Rightarrow> word64 \<Rightarrow> heap" where
  "splice_together h bp_prev bp_next sz =
     (let bucket_ptr = seg_listp h + bucket sz in
      if bp_prev = 0 \<and> bp_next = 0 then PUT h bucket_ptr 0
      else if bp_prev = 0 \<and> bp_next \<noteq> 0 then
        PUT (PUT h bucket_ptr bp_next) (PREV_PTR bp_next) 0
      else if bp_prev \<noteq> 0 \<and> bp_next = 0 then PUT h (NEXT_PTR bp_prev) 0
      else PUT (PUT h (NEXT_PTR bp_prev) bp_next) (PREV_PTR bp_next) bp_prev)"

text \<open>
  \<open>insert_root\<close> is the block of five statements under the comment
  ``Insert coalesced block at root'', which the source repeats in each of the four cases of
  \<open>coalesce\<close>.
\<close>

definition insert_root :: "heap \<Rightarrow> word64 \<Rightarrow> word64 \<Rightarrow> heap" where
  "insert_root h bp sz =
     (let bucket_ptr = seg_listp h + bucket sz;
          seg_bucket = GET h bucket_ptr;
          h1 = PUT h (NEXT_PTR bp) seg_bucket;
          h2 = PUT h1 (PREV_PTR bp) 0;
          h3 = (if seg_bucket \<noteq> 0 then PUT h2 (PREV_PTR seg_bucket) bp else h2)
      in PUT h3 bucket_ptr bp)"

definition coalesce :: "heap \<Rightarrow> word64 \<Rightarrow> word64 \<times> heap" where
  "coalesce h bp =
     (let prev_alloc = GET_ALLOC h (FTRP h (PREV_BLKP h bp));
          next_alloc = GET_ALLOC h (HDRP (NEXT_BLKP h bp));
          sz = GET_SIZE h (HDRP bp)
      in
      if prev_alloc \<noteq> 0 \<and> next_alloc \<noteq> 0 then (bp, insert_root h bp sz)
      else if prev_alloc \<noteq> 0 \<and> next_alloc = 0 then
        (let next_adjblock = NEXT_BLKP h bp;
             succ_next = NEXT_FREEBLKP h next_adjblock;
             succ_prev = PREV_FREEBLKP h next_adjblock;
             h1 = splice_together h succ_prev succ_next (GET_SIZE h (HDRP next_adjblock));
             sz = sz + GET_SIZE h1 (HDRP next_adjblock);
             h2 = PUT h1 (HDRP bp) (PACK sz 0);
             h3 = PUT h2 (FTRP h2 bp) (PACK sz 0)
         in (bp, insert_root h3 bp sz))
      else if prev_alloc = 0 \<and> next_alloc \<noteq> 0 then
        (let prev_adjblock = PREV_BLKP h bp;
             pred_next = NEXT_FREEBLKP h prev_adjblock;
             pred_prev = PREV_FREEBLKP h prev_adjblock;
             h1 = splice_together h pred_prev pred_next (GET_SIZE h (HDRP prev_adjblock));
             sz = sz + GET_SIZE h1 (HDRP prev_adjblock);
             h2 = PUT h1 (FTRP h1 bp) (PACK sz 0);
             h3 = PUT h2 (HDRP prev_adjblock) (PACK sz 0);
             bp = prev_adjblock
         in (bp, insert_root h3 bp sz))
      else
        (let next_adjblock = NEXT_BLKP h bp;
             succ_next = NEXT_FREEBLKP h next_adjblock;
             succ_prev = PREV_FREEBLKP h next_adjblock;
             h1 = splice_together h succ_prev succ_next (GET_SIZE h (HDRP next_adjblock));
             prev_adjblock = PREV_BLKP h1 bp;
             pred_next = NEXT_FREEBLKP h1 prev_adjblock;
             pred_prev = PREV_FREEBLKP h1 prev_adjblock;
             h2 = splice_together h1 pred_prev pred_next (GET_SIZE h1 (HDRP prev_adjblock));
             sz = sz + (GET_SIZE h2 (HDRP prev_adjblock) + GET_SIZE h2 (FTRP h2 next_adjblock));
             h3 = PUT h2 (HDRP prev_adjblock) (PACK sz 0);
             h4 = PUT h3 (FTRP h3 next_adjblock) (PACK sz 0);
             bp = prev_adjblock
         in (bp, insert_root h4 bp sz)))"

definition extend_heap :: "heap \<Rightarrow> word64 \<Rightarrow> word64 \<times> heap" where
  "extend_heap h words =
     (let sz = (if words mod 2 \<noteq> 0 then (words + 1) * 4 else words * 4);
          (bp, h1) = mem_sbrk h sz
      in
      if bp = - 1 then (0, h1)
      else
        (let h2 = PUT h1 (HDRP bp) (PACK sz 0);
             h3 = PUT h2 (FTRP h2 bp) (PACK sz 0);
             h4 = PUT h3 (HDRP (NEXT_BLKP h3 bp)) (PACK 0 1)
         in coalesce h4 bp))"

definition mm_init :: "heap \<Rightarrow> int \<times> heap" where
  "mm_init h =
     (let (p, h0) = mem_sbrk h (4 * 8 + 5 * 8);
          h1 = h0\<lparr>heap_listp := p\<rparr>
      in
      if p = - 1 then (- 1, h1)
      else
        (let h2 = PUT h1 (heap_listp h1) 0;
             h3 = fold (\<lambda>x hh. PUT hh (heap_listp hh + x * 8) 0) [1, 2, 3, 4, 5] h2;
             h4 = PUT h3 (heap_listp h3 + (5 + 1) * 8) (PACK 16 1);
             h5 = PUT h4 (heap_listp h4 + (5 + 2) * 8) (PACK 16 1);
             h6 = PUT h5 (heap_listp h5 + (5 + 3) * 8) (PACK 0 1);
             h7 = h6\<lparr>seg_listp := heap_listp h6 + 8\<rparr>;
             h8 = h7\<lparr>last_segp := heap_listp h7 + 5 * 8\<rparr>;
             h9 = h8\<lparr>heap_listp := heap_listp h8 + (5 + 2) * 8\<rparr>;
             (bp, h10) = extend_heap h9 (260 div 4)
         in if bp = 0 then (- 1, h10) else (0, h10)))"

definition place :: "heap \<Rightarrow> word64 \<Rightarrow> word64 \<Rightarrow> heap" where
  "place h bp asize =
     (let csize = GET_SIZE h (HDRP bp);
          next_free = NEXT_FREEBLKP h bp;
          prev_free = PREV_FREEBLKP h bp
      in
      if 2 * 16 \<le> csize - asize then
        (let h1 = PUT h (HDRP bp) (PACK asize 1);
             h2 = PUT h1 (FTRP h1 bp) (PACK asize 1);
             bp = NEXT_BLKP h2 bp;
             h3 = PUT h2 (HDRP bp) (PACK (csize - asize) 0);
             h4 = PUT h3 (FTRP h3 bp) (PACK (csize - asize) 0);
             h5 = splice_together h4 prev_free next_free csize
         in snd (coalesce h5 bp))
      else
        (let h1 = PUT h (HDRP bp) (PACK csize 1);
             h2 = PUT h1 (FTRP h1 bp) (PACK csize 1)
         in splice_together h2 prev_free next_free csize))"

text \<open>
  \<open>find_fit\<close>: \<open>fit_class\<close> is the inner loop over one free list and
  \<open>fit_classes\<close> the outer loop over the class heads. Neither loop has a bound in the
  source (a list with a cycle is walked for ever), so a search that does not return is the
  value \<open>None\<close>. The last argument lists the nodes whose header the inner loop reads,
  in the order of the reads; it is the only addition to the source and no result depends on
  it. \<open>find_fit\<close> is the pointer returned, \<open>find_fit_reads\<close> the nodes read and
  \<open>find_fit_visits\<close> their number.
\<close>

partial_function (option) fit_class ::
  "heap \<Rightarrow> word64 \<Rightarrow> word64 \<Rightarrow> word64 \<Rightarrow> word64 \<Rightarrow> word64 \<Rightarrow> word64 list \<Rightarrow>
   (word64 \<times> word64 list) option"
where
  "fit_class h asize bp result smallest count visited =
     (if bp \<noteq> 0 \<and> count < 10 then
        (if asize \<le> GET_SIZE h (HDRP bp) then
           (if result = 0 \<or> GET_SIZE h (HDRP bp) < smallest then
              (if GET_SIZE h (HDRP bp) = asize then Some (bp, visited @ [bp])
               else fit_class h asize (GET h bp) bp (GET_SIZE h (HDRP bp)) (count + 1)
                      (visited @ [bp]))
            else fit_class h asize (GET h bp) result smallest (count + 1) (visited @ [bp]))
         else fit_class h asize (GET h bp) result smallest count (visited @ [bp]))
      else Some (result, visited))"

partial_function (option) fit_classes ::
  "heap \<Rightarrow> word64 \<Rightarrow> word64 \<Rightarrow> word64 list \<Rightarrow> (word64 \<times> word64 list) option"
where
  "fit_classes h asize b_ptr visited =
     (if b_ptr \<le> last_segp h then
        (case fit_class h asize (GET h b_ptr) 0 (- 1) 0 visited of
           None \<Rightarrow> None
         | Some (result, visited') \<Rightarrow>
             if result \<noteq> 0 then Some (result, visited')
             else fit_classes h asize (b_ptr + 8) visited')
      else Some (0, visited))"

definition find_fit :: "heap \<Rightarrow> word64 \<Rightarrow> word64 option" where
  "find_fit h asize = map_option fst (fit_classes h asize (seg_listp h + bucket asize) [])"

definition find_fit_reads :: "heap \<Rightarrow> word64 \<Rightarrow> word64 list option" where
  "find_fit_reads h asize = map_option snd (fit_classes h asize (seg_listp h + bucket asize) [])"

definition find_fit_visits :: "heap \<Rightarrow> word64 \<Rightarrow> nat option" where
  "find_fit_visits h asize = map_option length (find_fit_reads h asize)"

subsection \<open>The entry points\<close>

definition malloc :: "heap \<Rightarrow> word64 \<Rightarrow> (word64 \<times> heap) option" where
  "malloc h0 size0 =
     (let h = (if heap_listp h0 = 0 then snd (mm_init h0) else h0) in
      if size0 = 0 then Some (0, h)
      else
        (let asize = (if size0 \<le> 16 then 2 * 16 else ALIGN (size0 + 16)) in
         (case find_fit h asize of
            None \<Rightarrow> None
          | Some bp \<Rightarrow>
              if bp \<noteq> 0 then Some (bp, place h bp asize)
              else
                (let extendsize = max asize 260;
                     (bp, h1) = extend_heap h (extendsize div 4)
                 in if bp = 0 then Some (0, h1) else Some (bp, place h1 bp asize)))))"

definition free :: "heap \<Rightarrow> word64 \<Rightarrow> heap" where
  "free h0 ptr =
     (if ptr = 0 then h0
      else
        (let sz = GET_SIZE h0 (HDRP ptr);
             h = (if heap_listp h0 = 0 then snd (mm_init h0) else h0);
             h1 = PUT h (HDRP ptr) (PACK sz 0);
             h2 = PUT h1 (FTRP h1 ptr) (PACK sz 0)
         in snd (coalesce h2 ptr)))"

text \<open>
  Bytes within the cells, for \<open>memset\<close> and \<open>memcpy\<close>: the machine is little
  endian, so byte \<open>k\<close> of a cell is its bits from \<open>8 * k\<close>. \<open>memset\<close> with
  a count that is not zero is a fault when it writes through the null pointer or outside the
  region of the memory system.
\<close>

definition byte_at :: "heap \<Rightarrow> word64 \<Rightarrow> 8 word" where
  "byte_at h a = ucast (drop_bit (8 * unat (a AND 7)) (mem h (a AND NOT 7)))"

definition set_byte :: "heap \<Rightarrow> word64 \<Rightarrow> 8 word \<Rightarrow> heap" where
  "set_byte h a v =
     (let c = a AND NOT 7; k = 8 * unat (a AND 7) in
      h\<lparr>mem := (mem h)(c := (mem h c AND NOT (push_bit k 255)) OR push_bit k (ucast v))\<rparr>)"

definition memset :: "heap \<Rightarrow> word64 \<Rightarrow> 8 word \<Rightarrow> word64 \<Rightarrow> fault + heap" where
  "memset h s c n =
     (if n = 0 then Inr h
      else if s = 0 \<or> unat s < unat (mem_start_brk h) \<or>
              unat (mem_max_addr h) < unat s + unat n then Inl Segfault
      else Inr (fold (\<lambda>i hh. set_byte hh (s + of_nat i) c) [0..<unat n] h))"

definition memcpy :: "heap \<Rightarrow> word64 \<Rightarrow> word64 \<Rightarrow> word64 \<Rightarrow> heap" where
  "memcpy h dest src n =
     fold (\<lambda>i hh. set_byte hh (dest + of_nat i) (byte_at hh (src + of_nat i))) [0..<unat n] h"

text \<open>
  \<open>realloc\<close>: the test of the free right neighbour and the test of the combined size
  are one condition here; when it fails, the source falls through to the allocation of a
  new block.
\<close>

definition realloc :: "heap \<Rightarrow> word64 \<Rightarrow> word64 \<Rightarrow> (word64 \<times> heap) option" where
  "realloc h oldptr size0 =
     (if size0 = 0 then Some (0, free h oldptr)
      else if oldptr = 0 then malloc h size0
      else
        (let asize = (if size0 \<le> 16 then 2 * 16 else ALIGN (size0 + 16));
             oldsize = GET_SIZE h (HDRP oldptr)
         in
         if asize = oldsize then Some (oldptr, h)
         else if asize < oldsize then
           (if 2 * 16 \<le> oldsize - asize then
              (let h1 = PUT h (HDRP oldptr) (PACK asize 1);
                   h2 = PUT h1 (FTRP h1 oldptr) (PACK asize 1);
                   bp = NEXT_BLKP h2 oldptr;
                   h3 = PUT h2 (HDRP bp) (PACK (oldsize - asize) 0);
                   h4 = PUT h3 (FTRP h3 bp) (PACK (oldsize - asize) 0)
               in Some (oldptr, snd (coalesce h4 bp)))
            else Some (oldptr, h))
         else
           (let next_block = NEXT_BLKP h oldptr;
                succ_next = NEXT_FREEBLKP h next_block;
                succ_prev = PREV_FREEBLKP h next_block;
                nextsize = GET_SIZE h (HDRP next_block)
            in
            if (next_block \<noteq> 0 \<and> GET_ALLOC h (HDRP next_block) = 0) \<and>
               asize \<le> oldsize + nextsize
            then
              (let h1 = PUT h (HDRP oldptr) (PACK (oldsize + nextsize) 1);
                   h2 = PUT h1 (FTRP h1 oldptr) (PACK (oldsize + nextsize) 1)
               in Some (oldptr, splice_together h2 succ_prev succ_next nextsize))
            else
              (case malloc h size0 of
                 None \<Rightarrow> None
               | Some (newptr, h1) \<Rightarrow>
                   if newptr = 0 then Some (0, h1)
                   else
                     (let oldsize = (if size0 < oldsize then size0 else oldsize);
                          h2 = memcpy h1 newptr oldptr oldsize
                      in Some (newptr, free h2 oldptr))))))"

definition calloc :: "heap \<Rightarrow> word64 \<Rightarrow> word64 \<Rightarrow> (fault + word64 \<times> heap) option" where
  "calloc h nmemb size0 =
     (let bytes = nmemb * size0 in
      (case malloc h bytes of
         None \<Rightarrow> None
       | Some (newptr, h1) \<Rightarrow>
           (case memset h1 newptr 0 bytes of
              Inl e \<Rightarrow> Some (Inl e)
            | Inr h2 \<Rightarrow> Some (Inr (newptr, h2)))))"

subsection \<open>Free lists as lists, and the search as the specification words it\<close>

text \<open>
  \<open>free_list h p bs\<close>: the \<open>next\<close> pointers lead from \<open>p\<close> through the
  blocks \<open>bs\<close> to \<open>NULL\<close>. \<open>fits\<close> are the blocks of a list that are large
  enough, \<open>best_fit\<close> is the first block of the least size among the candidates (or
  \<open>NULL\<close>), and \<open>first_fit_from\<close> takes the first class whose first ten fits
  give a block. \<open>walk\<close> is the walk along one list as the specification words it, with
  \<open>k\<close> the fitting blocks met before: it stops after the tenth fitting block and at a
  block of exactly the size asked for; the blocks it passes are the ones examined.
  \<open>reads\<close> are the blocks examined in the whole search: those of each class in turn,
  up to the first class that gives a block.
\<close>

fun free_list :: "heap \<Rightarrow> word64 \<Rightarrow> word64 list \<Rightarrow> bool" where
  "free_list h p [] \<longleftrightarrow> p = 0"
| "free_list h p (b # bs) \<longleftrightarrow> p = b \<and> b \<noteq> 0 \<and> free_list h (GET h b) bs"

definition block_size :: "heap \<Rightarrow> word64 \<Rightarrow> word64" where
  "block_size h bp = GET_SIZE h (HDRP bp)"

definition fits :: "heap \<Rightarrow> word64 \<Rightarrow> word64 list \<Rightarrow> word64 list" where
  "fits h asize bs = filter (\<lambda>b. asize \<le> block_size h b) bs"

definition best_fit :: "heap \<Rightarrow> word64 list \<Rightarrow> word64" where
  "best_fit h cs = (if cs = [] then 0 else arg_min_list (\<lambda>b. unat (block_size h b)) cs)"

fun first_fit_from :: "heap \<Rightarrow> word64 \<Rightarrow> word64 list list \<Rightarrow> word64" where
  "first_fit_from h asize [] = 0"
| "first_fit_from h asize (bs # bss) =
     (let r = best_fit h (take 10 (fits h asize bs)) in
      if r \<noteq> 0 then r else first_fit_from h asize bss)"

fun walk :: "heap \<Rightarrow> word64 \<Rightarrow> nat \<Rightarrow> word64 list \<Rightarrow> word64 list" where
  "walk h asize k [] = []"
| "walk h asize k (b # bs) =
     (if 10 \<le> k then []
      else if block_size h b = asize then [b]
      else b # walk h asize (if asize \<le> block_size h b then Suc k else k) bs)"

fun reads :: "heap \<Rightarrow> word64 \<Rightarrow> word64 list list \<Rightarrow> word64 list" where
  "reads h asize [] = []"
| "reads h asize (bs # bss) =
     walk h asize 0 bs @
     (if best_fit h (take 10 (fits h asize bs)) \<noteq> 0 then [] else reads h asize bss)"

subsection \<open>Concrete heaps\<close>

text \<open>
  \<open>heap_A\<close>: the heap after \<open>mm_init\<close>, with the memory region at 4096: the class
  heads at 4104 to 4136, the prologue at 4144, one free block of 264 bytes at 4168 and the
  epilogue at 4424. \<open>heap_C\<close>: \<open>heap_A\<close> after \<open>malloc(32)\<close>, a block of 48
  bytes at 4168 and a free block of 216 bytes at 4216.
\<close>

definition heap_A :: heap where
  "heap_A =
     \<lparr>mem = (\<lambda>_. 0)(4112 := 4168, 4144 := 17, 4152 := 17, 4160 := 264, 4416 := 264, 4424 := 1),
      heap_listp = 4152, seg_listp = 4104, last_segp = 4136, mem_start_brk = 4096,
      mem_brk = 4432,
      mem_max_addr = 1052672\<rparr>"

definition heap_C :: heap where
  "heap_C =
     \<lparr>mem = (\<lambda>_. 0)(4112 := 4216, 4144 := 17, 4152 := 17, 4160 := 49, 4200 := 49, 4208 := 216,
               4416 := 216, 4424 := 1),
      heap_listp = 4152, seg_listp = 4104, last_segp = 4136, mem_start_brk = 4096,
      mem_brk = 4432,
      mem_max_addr = 1052672\<rparr>"

text \<open>
  \<open>heap_B\<close>: 132 blocks of 32 bytes between the prologue and the epilogue (the heap was
  extended 16 times by 264 bytes), block \<open>i\<close> at \<open>4168 + 32 * i\<close>. The blocks with
  an even \<open>i\<close> are allocated, the 66 blocks with an odd \<open>i\<close> were freed in rising
  order: no two of them are neighbours, and all of them are on the list of class 0, the
  block freed last (\<open>i = 131\<close>, at 8360) at the head.
\<close>

definition heap_B :: heap where
  "heap_B =
     \<lparr>mem = (\<lambda>a. if a = 4104 then 8360
                else if a = 4144 \<or> a = 4152 then 17
                else if 4160 \<le> a \<and> a < 8384 then
                  (let i = (a - 4160) div 32; r = (a - 4160) mod 32 in
                   if r = 0 \<or> r = 24 then (if even i then 33 else 32)
                   else if odd i \<and> r = 8 then (if i = 1 then 0 else a - 64)
                   else if odd i \<and> r = 16 then (if i = 131 then 0 else a + 56)
                   else 0)
                else if a = 8384 then 1 else 0),
      heap_listp = 4152, seg_listp = 4104, last_segp = 4136, mem_start_brk = 4096,
      mem_brk = 8392,
      mem_max_addr = 1052672\<rparr>"

text \<open>
  \<open>heap_W\<close>: a heap whose list of class 0 holds twelve free blocks, each followed by
  an allocated block of 32 bytes. In the order of the list (the block freed last at the
  head): a block of 32 bytes, a block of 128 bytes, a block of 96 bytes, a block of 112
  bytes, seven blocks of 96 bytes, and a block of 64 bytes. The other classes are empty.
\<close>

definition heap_W :: heap where
  "heap_W =
     \<lparr>mem = (\<lambda>_. 0)(4104 := 4168, 4144 := 17, 4152 := 17, 4160 := 32,
               4168 := 4232, 4184 := 32, 4192 := 33, 4216 := 33, 4224 := 128, 4232 := 4392,
               4240 := 4168, 4344 := 128, 4352 := 33, 4376 := 33, 4384 := 96, 4392 := 4520,
               4400 := 4232, 4472 := 96, 4480 := 33, 4504 := 33, 4512 := 112, 4520 := 4664,
               4528 := 4392, 4616 := 112, 4624 := 33, 4648 := 33, 4656 := 96, 4664 := 4792,
               4672 := 4520, 4744 := 96, 4752 := 33, 4776 := 33, 4784 := 96, 4792 := 4920,
               4800 := 4664, 4872 := 96, 4880 := 33, 4904 := 33, 4912 := 96, 4920 := 5048,
               4928 := 4792, 5000 := 96, 5008 := 33, 5032 := 33, 5040 := 96, 5048 := 5176,
               5056 := 4920, 5128 := 96, 5136 := 33, 5160 := 33, 5168 := 96, 5176 := 5304,
               5184 := 5048, 5256 := 96, 5264 := 33, 5288 := 33, 5296 := 96, 5304 := 5432,
               5312 := 5176, 5384 := 96, 5392 := 33, 5416 := 33, 5424 := 96, 5432 := 5560,
               5440 := 5304, 5512 := 96, 5520 := 33, 5544 := 33, 5552 := 64, 5568 := 5432,
               5608 := 64, 5616 := 33, 5640 := 33, 5648 := 1),
      heap_listp = 4152, seg_listp = 4104, last_segp = 4136, mem_start_brk = 4096,
      mem_brk = 5656, mem_max_addr = 1052672\<rparr>"

definition list_W :: "word64 list" where
  "list_W = [4168, 4232, 4392, 4520, 4664, 4792, 4920, 5048, 5176, 5304, 5432, 5560]"

section \<open>The proxy worker (proxy.c)\<close>

text \<open>
  What one call of \<open>new_request\<close> does to its two sockets, as the list of its writes,
  connections and closes in their order. What the worker receives is its environment: the
  request line and the result of reading it, the header lines that the client sends (the
  empty line that ends them is sent after the last one), the cache, whether
  \<open>open_clientfd_r\<close> succeeds, and the chunks the server sends. The environment also
  holds what the stack holds where the code reads it without having written it: the buffers
  \<open>method\<close> and \<open>uri\<close> before the first \<open>sscanf\<close> fills them,
  \<open>h_key\<close> before the second one does, and the bytes after \<open>port_s\<close>, up to
  the first null byte. Every write succeeds.
\<close>

datatype event =
    Write_client string
  | Close_client
  | Connect string string
  | Write_server string
  | Close_server

record env =
  request_rc :: int
  request_line_buf :: string
  stack_method :: string
  stack_uri :: string
  stack_port :: string
  stack_h_key :: string
  header_lines :: "string list"
  cached :: "string \<Rightarrow> string option"
  connect_ok :: bool
  server_chunks :: "string list"

text \<open>
  \<open>strcasecmp\<close> and \<open>strncasecmp\<close> are true when the strings differ (the C
  functions return a value that is not 0). \<open>scan_word\<close> is one \<open>%s\<close> of
  \<open>sscanf\<close>: it skips white space and reads up to the next white space.
\<close>

definition tolower :: "char \<Rightarrow> char" where
  "tolower c =
     (if of_char (CHR ''A'') \<le> (of_char c :: nat) \<and> (of_char c :: nat) \<le> of_char (CHR ''Z'')
      then char_of ((of_char c :: nat) + 32) else c)"

definition strcasecmp :: "string \<Rightarrow> string \<Rightarrow> bool" where
  "strcasecmp s t \<longleftrightarrow> map tolower s \<noteq> map tolower t"

definition strncasecmp :: "string \<Rightarrow> string \<Rightarrow> nat \<Rightarrow> bool" where
  "strncasecmp s t n \<longleftrightarrow> map tolower (take n s) \<noteq> map tolower (take n t)"

definition isspace :: "char \<Rightarrow> bool" where
  "isspace c \<longleftrightarrow> (of_char c :: nat) = 32 \<or> (9 \<le> (of_char c :: nat) \<and> (of_char c :: nat) \<le> 13)"

definition isdigit :: "char \<Rightarrow> bool" where
  "isdigit c \<longleftrightarrow> 48 \<le> (of_char c :: nat) \<and> (of_char c :: nat) \<le> 57"

definition scan_word :: "string \<Rightarrow> string \<times> string" where
  "scan_word s =
     (let s1 = dropWhile isspace s in (takeWhile (\<lambda>c. \<not> isspace c) s1, dropWhile (\<lambda>c. \<not> isspace c) s1))"

fun digit_char :: "nat \<Rightarrow> char" where
  "digit_char n = char_of (48 + n)"

function decimal :: "nat \<Rightarrow> string" where
  "decimal n = (if n < 10 then [digit_char n] else decimal (n div 10) @ [digit_char (n mod 10)])"
  by pat_completeness auto
termination
  by (relation "measure id") auto

definition clienterror :: "string \<Rightarrow> string \<Rightarrow> string \<Rightarrow> string \<Rightarrow> event list" where
  "clienterror cause errnum shortmsg longmsg =
     (let body = ''<html><title>Tiny Error</title>'';
          body = body @ ''<body bgcolor=ffffff>'' @ [CHR 0x0D, CHR 0x0A];
          body = body @ errnum @ '': '' @ shortmsg @ [CHR 0x0D, CHR 0x0A];
          body = body @ ''<p>'' @ longmsg @ '': '' @ cause @ [CHR 0x0D, CHR 0x0A];
          body = body @ ''<hr><em>The Tiny Web server</em>'' @ [CHR 0x0D, CHR 0x0A]
      in
      [Write_client (''HTTP/1.0 '' @ errnum @ '' '' @ shortmsg @ [CHR 0x0D, CHR 0x0A]),
       Write_client (''Content-type: text/html'' @ [CHR 0x0D, CHR 0x0A]),
       Write_client (''Content-length: '' @ decimal (length body) @ [CHR 0x0D, CHR 0x0A, CHR 0x0D, CHR 0x0A]),
       Write_client body])"

text \<open>
  \<open>read_request\<close> returns nothing in the source: it fills \<open>request\<close> and
  \<open>uri\<close>, sends the error replies, and returns to \<open>new_request\<close> in every case.
\<close>

record request_line =
  request_buf :: string
  req_method :: string
  uri :: string

definition read_request :: "int \<Rightarrow> string \<Rightarrow> string \<Rightarrow> string \<Rightarrow> event list \<times> request_line" where
  "read_request rc buf method0 uri0 =
     (let ev1 = (if rc < 0 then
                   clienterror method0 ''400'' ''Bad Request'' ''Proxy could not be understood''
                 else []);
          (w1, r1) = scan_word buf;
          (w2, r2) = scan_word r1;
          method1 = (if w1 = [] then method0 else w1);
          uri1 = (if w1 = [] \<or> w2 = [] then uri0 else w2);
          ev2 = (if strcasecmp method1 ''GET'' then
                   clienterror method1 ''501'' ''Not Implemented'' ''Proxy only supports GET method''
                 else [])
      in (ev1 @ ev2, \<lparr>request_buf = buf, req_method = method1, uri = uri1\<rparr>))"

text \<open>
  \<open>atoi\<close> is the one of the C library, \<open>(int) strtol(nptr, NULL, 10)\<close>:
  \<open>strtol\<close> skips white space, reads a sign and the decimal digits, and returns the
  number within the range of \<open>long\<close> (64 bits); the conversion to \<open>int\<close> keeps
  the low 32 bits.
\<close>

definition digit_val :: "char \<Rightarrow> int" where
  "digit_val c = int (of_char c) - 48"

definition strtol :: "string \<Rightarrow> int" where
  "strtol nptr =
     (let s = dropWhile isspace nptr;
          (negative, s1) =
            (case s of
               [] \<Rightarrow> (False, s)
             | c # cs \<Rightarrow> if c = CHR ''-'' then (True, cs)
                        else if c = CHR ''+'' then (False, cs) else (False, s));
          n = foldl (\<lambda>acc c. 10 * acc + digit_val c) 0 (takeWhile isdigit s1);
          v = (if negative then - n else n)
      in max (- (2 ^ 63)) (min (2 ^ 63 - 1) v))"

definition atoi :: "string \<Rightarrow> int" where
  "atoi nptr = int_wrap (strtol nptr)"

record target =
  req_port :: string
  host :: string
  remain :: string

text \<open>
  \<open>read_uri\<close>: \<open>port_s\<close> has ten bytes, all null before the loop that copies the
  port. A port of fewer than ten characters is followed by a null byte; a longer one fills
  \<open>port_s\<close> and goes on past it, and the string at \<open>req_port\<close> ends where the
  stack has its next null byte.
\<close>

definition read_uri :: "string \<Rightarrow> string \<Rightarrow> target" where
  "read_uri uri0 after_port_s =
     (let uri_p = (if \<not> strncasecmp uri0 ''http://'' 7 then drop 7 uri0 else uri0);
          host1 = takeWhile (\<lambda>c. c \<noteq> CHR ''/'' \<and> c \<noteq> CHR '':'') uri_p;
          rest = dropWhile (\<lambda>c. c \<noteq> CHR ''/'' \<and> c \<noteq> CHR '':'') uri_p;
          (port1, remain1) =
            (case rest of
               c # port_p \<Rightarrow>
                 if c = CHR '':'' then
                   (let port_s = takeWhile (\<lambda>c. c \<noteq> CHR ''/'') port_p in
                    (if length port_s < 10 then port_s else port_s @ after_port_s,
                     dropWhile (\<lambda>c. c \<noteq> CHR ''/'') port_p))
                 else (''-1'', rest)
             | [] \<Rightarrow> (''-1'', rest))
      in \<lparr>req_port = (if atoi port1 < 0 then ''80'' else port1), host = host1,
           remain = remain1\<rparr>)"

definition remove_newline :: "string \<Rightarrow> string" where
  "remove_newline header = takeWhile (\<lambda>c. c \<noteq> CHR 0x0D) header"

definition user_agent_hdr :: string where
  "user_agent_hdr = ''User-Agent: Mozilla/5.0 (X11; Linux x86_64; rv:10.0.3) Gecko/20120305 Firefox/10.0.3'' @ [CHR 0x0D, CHR 0x0A]"

definition accept_hdr :: string where
  "accept_hdr = ''Accept: text/html,application/xhtml+xml,application/xml;q=0.9,*/*;q=0.8'' @ [CHR 0x0D, CHR 0x0A]"

definition accept_encoding_hdr :: string where
  "accept_encoding_hdr = ''Accept-Encoding: gzip, deflate'' @ [CHR 0x0D, CHR 0x0A]"

definition connection_hdr :: string where
  "connection_hdr = ''Connection: close'' @ [CHR 0x0D, CHR 0x0A]"

definition proxy_connection_hdr :: string where
  "proxy_connection_hdr = ''Proxy-Connection: close'' @ [CHR 0x0D, CHR 0x0A]"

text \<open>
  \<open>cat_requesthdrs\<close>: \<open>%[^:]\<close> of \<open>sscanf\<close> reads the characters before
  the first colon into \<open>h_key\<close>; when the line starts with a colon it converts nothing
  and \<open>h_key\<close> stays what it was, the key of the line before. The loop ends at the
  empty line.
\<close>

fun cat_lines :: "string \<Rightarrow> string list \<Rightarrow> string" where
  "cat_lines h_key [] = []"
| "cat_lines h_key (buf # rest) =
     (let scanned = takeWhile (\<lambda>c. c \<noteq> CHR '':'') buf;
          h_key1 = (if scanned = [] then h_key else scanned)
      in (if strcasecmp h_key1 ''User-Agent'' \<and> strcasecmp h_key1 ''Accept'' \<and>
             strcasecmp h_key1 ''Accept-Encoding'' \<and> strcasecmp h_key1 ''Connection'' \<and>
             strcasecmp h_key1 ''Proxy-Connection''
          then buf else [])
         @ cat_lines h_key1 rest)"

definition cat_requesthdrs :: "string \<Rightarrow> string list \<Rightarrow> string" where
  "cat_requesthdrs h_key0 lines =
     cat_lines h_key0 (takeWhile (\<lambda>buf. buf \<noteq> [CHR 0x0D, CHR 0x0A]) lines)
     @ user_agent_hdr @ accept_hdr @ accept_encoding_hdr @ connection_hdr @ proxy_connection_hdr"

definition new_request :: "env \<Rightarrow> event list" where
  "new_request e =
     (let (ev, rl) = read_request (request_rc e) (request_line_buf e) (stack_method e) (stack_uri e);
          t = read_uri (uri rl) (stack_port e);
          req_headers = cat_requesthdrs (stack_h_key e) (header_lines e)
      in
      (case cached e (request_buf rl) of
         Some resp \<Rightarrow> ev @ [Write_client resp, Close_client]
       | None \<Rightarrow>
           if \<not> connect_ok e then
             ev @ clienterror ''GET'' ''404'' ''Not found'' ''Requested URL could not be found''
                @ [Close_client]
           else
             ev @ [Connect (remove_newline (host t)) (req_port t),
                   Write_server (''GET '' @ remain t @ '' HTTP/1.0'' @ [CHR 0x0D, CHR 0x0A]),
                   Write_server (req_headers @ [CHR 0x0D, CHR 0x0A])]
                @ map Write_client (server_chunks e) @ [Close_server, Close_client]))"

text \<open>
  A client that sends a \<open>POST\<close> request for a page that is not in the cache, to a
  server that accepts the connection.
\<close>

definition post_env :: env where
  "post_env =
     \<lparr>request_rc = 43,
      request_line_buf = ''POST http://example.com/index.html HTTP/1.0'' @ [CHR 0x0D, CHR 0x0A],
      stack_method = [], stack_uri = [], stack_port = [], stack_h_key = [],
      header_lines = [], cached = (\<lambda>_. None),
      connect_ok = True, server_chunks = []\<rparr>"

section \<open>Properties of the cache\<close>

subsection \<open>Linked segments\<close>

lemma first_ptr_simps [simp]:
  "first_ptr [] q = q" "first_ptr (b # bs) q = Some b"
  by (simp_all add: first_ptr_def)

lemma last_ptr_simps [simp]:
  "last_ptr [] p = p" "last_ptr (xs @ [b]) p = Some b"
  by (simp_all add: last_ptr_def)

lemma last_ptr_Cons: "last_ptr (a # as) p = last_ptr as (Some a)"
  by (simp add: last_ptr_def)

lemma first_ptr_append: "first_ptr (xs @ ys) q = first_ptr xs (first_ptr ys q)"
  by (cases xs) simp_all

lemma seg_upd_notin: "a \<notin> set xs \<Longrightarrow> seg (h(a := v)) p xs q = seg h p xs q"
  by (induction xs arbitrary: p) (auto split: option.splits)

lemma seg_append:
  "seg h p (xs @ ys) q \<longleftrightarrow> seg h p xs (first_ptr ys q) \<and> seg h (last_ptr xs p) ys q"
proof (induction xs arbitrary: p)
  case Nil
  show ?case by simp
next
  case (Cons a as)
  show ?case
    by (auto simp: Cons.IH last_ptr_Cons first_ptr_append split: option.splits)
qed

lemma seg_set_next_last:
  assumes "seg h p (ys @ [y]) q" "distinct (ys @ [y])" "h y = Some oy"
  shows "seg (h(y := Some (oy\<lparr>next := q'\<rparr>))) p (ys @ [y]) q'"
  using assms
  by (auto simp: seg_append seg_upd_notin split: option.splits)

lemma seg_set_prev_first:
  assumes "seg h p (z # zs) q" "distinct (z # zs)" "h z = Some oz"
  shows "seg (h(z := Some (oz\<lparr>prev := p'\<rparr>))) p' (z # zs) q"
  using assms
  by (auto simp: seg_upd_notin split: option.splits)

lemma seg_in_dom: "seg h p xs q \<Longrightarrow> a \<in> set xs \<Longrightarrow> \<exists>ob. h a = Some ob"
  by (induction xs arbitrary: p) (auto split: option.splits)

lemma seg_next_in:
  "seg h p xs None \<Longrightarrow> b \<in> set xs \<Longrightarrow> h b = Some ob \<Longrightarrow> next ob = Some c \<Longrightarrow> c \<in> set xs"
proof (induction xs arbitrary: p)
  case Nil
  then show ?case by simp
next
  case (Cons a as)
  show ?case
  proof (cases "b = a")
    case True
    with Cons.prems show ?thesis
      by (cases as) (auto split: option.splits)
  next
    case False
    with Cons.prems have "b \<in> set as" "seg h (Some a) as None"
      by (auto split: option.splits)
    with Cons.IH Cons.prems(3,4) show ?thesis by auto
  qed
qed


lemma dll_unique: "dll C xs \<Longrightarrow> dll C ys \<Longrightarrow> xs = ys"
proof -
  have "seg h p xs None \<Longrightarrow> seg h p ys None \<Longrightarrow> first_ptr xs None = first_ptr ys None
          \<Longrightarrow> xs = ys" for h p
  proof (induction xs arbitrary: ys p)
    case Nil
    then show ?case by (cases ys) simp_all
  next
    case (Cons a as)
    then obtain bs where ys: "ys = a # bs" by (cases ys) simp_all
    with Cons.prems have "seg h (Some a) as None" "seg h (Some a) bs None"
      "first_ptr as None = first_ptr bs None"
      by (auto split: option.splits)
    with Cons.IH have "as = bs" by blast
    with ys show ?case by simp
  qed
  then show "dll C xs \<Longrightarrow> dll C ys \<Longrightarrow> xs = ys"
    by (auto simp: dll_def)
qed

lemma resident_in_list: "resident C a \<Longrightarrow> dll C xs \<Longrightarrow> a \<in> set xs"
proof (induction rule: resident.induct)
  case (resident_head a)
  then show ?case by (cases xs) (auto simp: dll_def)
next
  case (resident_next a ob b)
  then show ?case
    using seg_next_in[of "objs C" None xs a ob b] by (simp add: dll_def)
qed

subsection \<open>Removing an object\<close>

lemma keeps_refl [simp]: "keeps C C b"
  by (simp add: keeps_def)

lemma keeps_trans: "keeps C C1 b \<Longrightarrow> keeps C1 C2 b \<Longrightarrow> keeps C C2 b"
  by (simp add: keeps_def)

lemma keeps_size_at: "keeps C C' b \<Longrightarrow> size_at C' b = size_at C b"
  by (cases "objs C b"; cases "objs C' b") (auto simp: keeps_def size_at_def payload_def)

lemma keeps_same: "objs C' b = objs C b \<Longrightarrow> keeps C C' b"
  by (simp add: keeps_def)

lemma total_size_keeps:
  "(\<And>b. b \<in> set xs \<Longrightarrow> keeps C C' b) \<Longrightarrow> total_size C' xs = total_size C xs"
  unfolding total_size_def by (induction xs) (simp_all add: keeps_size_at)

lemma cache_remove_only:
  assumes "dll C [a]"
  shows "\<exists>C'. cache_remove C (Some a) = Inr C' \<and> dll C' [] \<and>
     bytes_left C' = int_wrap (bytes_left C + size_at C a) \<and> objs C' = (objs C)(a := None)"
  using assms
  by (auto simp: dll_def cache_remove_def deref_def free_obj_def size_at_def split: option.splits)

lemma cache_remove_head:
  assumes "dll C (a # z # zs)"
  shows "\<exists>C' oz. cache_remove C (Some a) = Inr C' \<and> dll C' (z # zs) \<and>
     bytes_left C' = int_wrap (bytes_left C + size_at C a) \<and> objs C z = Some oz \<and> 
     objs C' = (objs C)(z := Some (oz\<lparr>prev := None\<rparr>), a := None)"
proof -
  from assms obtain oa oz where oa: "objs C a = Some oa" "prev oa = None" "next oa = Some z"
    and oz: "objs C z = Some oz" "prev oz = Some a" "next oz = first_ptr zs None"
    and sg: "seg (objs C) (Some z) zs None"
    and d: "a \<noteq> z" "a \<notin> set zs" "z \<notin> set zs" "distinct zs"
    and ends: "MRA C = Some a" "LRA C = last_ptr (a # z # zs) None"
    by (auto simp: dll_def split: option.splits)
  let ?C' = "C\<lparr>bytes_left := int_wrap (bytes_left C + size_obj oa), MRA := Some z,
                objs := (objs C)(z := Some (oz\<lparr>prev := None\<rparr>), a := None)\<rparr>"
  have r: "cache_remove C (Some a) = Inr ?C'"
    using oa oz d by (simp add: cache_remove_def deref_def free_obj_def set_prev_def)
  have "dll ?C' (z # zs)"
    using oz sg d ends by (simp add: dll_def seg_upd_notin last_ptr_def)
  with r oa oz show ?thesis
    by (simp add: size_at_def)
qed

lemma cache_remove_last:
  assumes "dll C (ys @ [y, a])"
  shows "\<exists>C' oy. cache_remove C (Some a) = Inr C' \<and> dll C' (ys @ [y]) \<and>
     bytes_left C' = int_wrap (bytes_left C + size_at C a) \<and> objs C y = Some oy \<and> 
     objs C' = (objs C)(y := Some (oy\<lparr>next := None\<rparr>), a := None)"
proof -
  have sp: "ys @ [y, a] = (ys @ [y]) @ [a]" by simp
  from assms have d: "a \<noteq> y" "a \<notin> set ys" "y \<notin> set ys" "distinct ys"
    by (auto simp: dll_def)
  from assms have s1: "seg (objs C) None (ys @ [y]) (Some a)"
    and s2: "seg (objs C) (Some y) [a] None"
    unfolding dll_def sp seg_append by simp_all
  from s2 obtain oa where oa: "objs C a = Some oa" "prev oa = Some y" "next oa = None"
    by (auto split: option.splits)
  from s1 obtain oy where oy: "objs C y = Some oy"
    by (auto simp: seg_append split: option.splits)
  from assms have ends: "MRA C = first_ptr (ys @ [y]) None" 
    by (simp add: dll_def first_ptr_append)
  let ?C' = "C\<lparr>bytes_left := int_wrap (bytes_left C + size_obj oa), LRA := Some y,
                objs := (objs C)(y := Some (oy\<lparr>next := None\<rparr>), a := None)\<rparr>"
  have r: "cache_remove C (Some a) = Inr ?C'"
    using oa oy d by (simp add: cache_remove_def deref_def free_obj_def set_next_def)
  have "seg ((objs C)(y := Some (oy\<lparr>next := None\<rparr>))) None (ys @ [y]) None"
    using s1 d oy by (intro seg_set_next_last) simp_all
  then have "seg (objs ?C') None (ys @ [y]) None"
    using d by (simp add: seg_upd_notin)
  then have "dll ?C' (ys @ [y])"
    using d ends by (simp add: dll_def)
  with r oa oy show ?thesis
    by (simp add: size_at_def)
qed

lemma cache_remove_mid:
  assumes "dll C (ys @ [y, a] @ z # zs)"
  shows "\<exists>C' oy oz. cache_remove C (Some a) = Inr C' \<and> dll C' (ys @ [y] @ z # zs) \<and>
     bytes_left C' = int_wrap (bytes_left C + size_at C a) \<and> objs C y = Some oy \<and> objs C z = Some oz \<and> 
     objs C' = (objs C)(y := Some (oy\<lparr>next := Some z\<rparr>), z := Some (oz\<lparr>prev := Some y\<rparr>), a := None)"
proof -
  have sp: "ys @ [y, a] @ z # zs = (ys @ [y]) @ a # (z # zs)" by simp
  from assms have d: "a \<noteq> y" "a \<notin> set ys" "y \<notin> set ys" "distinct ys" "a \<noteq> z" "y \<noteq> z"
     "a \<notin> set zs" "y \<notin> set zs" "z \<notin> set zs" "z \<notin> set ys" "distinct zs" "set ys \<inter> set zs = {}"
    by (auto simp: dll_def)
  from assms have s1: "seg (objs C) None (ys @ [y]) (Some a)"
    and s2: "seg (objs C) (Some y) (a # z # zs) None"
    unfolding dll_def sp seg_append by simp_all
  from s2 obtain oa oz where oa: "objs C a = Some oa" "prev oa = Some y" "next oa = Some z"
    and oz: "objs C z = Some oz" and s3: "seg (objs C) (Some a) (z # zs) None"
    by (auto split: option.splits)
  from s1 obtain oy where oy: "objs C y = Some oy"
    by (auto simp: seg_append split: option.splits)
  from assms have ends: "MRA C = first_ptr (ys @ [y]) None" "LRA C = Some (last (z # zs))"
    by (simp_all add: dll_def first_ptr_append last_ptr_def)
  let ?h1 = "(objs C)(y := Some (oy\<lparr>next := Some z\<rparr>))"
  let ?h2 = "?h1(z := Some (oz\<lparr>prev := Some y\<rparr>))"
  let ?C' = "C\<lparr>bytes_left := int_wrap (bytes_left C + size_obj oa), objs := ?h2(a := None)\<rparr>"
  have r: "cache_remove C (Some a) = Inr ?C'"
    using oa oy oz d by (simp add: cache_remove_def deref_def free_obj_def set_next_def set_prev_def)
  have a1: "seg ?h1 None (ys @ [y]) (Some z)"
    using s1 d oy by (intro seg_set_next_last) simp_all
  have "seg ?h1 (Some a) (z # zs) None"
    using s3 d by (simp only: seg_upd_notin set_simps insert_iff simp_thms not_False_eq_True)
  then have a2: "seg ?h2 (Some y) (z # zs) None"
    using d oz by (intro seg_set_prev_first) simp_all
  have a3: "seg ?h2 None (ys @ [y]) (Some z)"
    using a1 d by (simp add: seg_upd_notin)
  have "seg ?h2 None ((ys @ [y]) @ z # zs) None"
    using a2 a3 seg_append[of ?h2 None "ys @ [y]" "z # zs" None]
    by (simp only: first_ptr_simps last_ptr_simps simp_thms)
  then have "seg (objs ?C') None (ys @ [y] @ z # zs) None"
    using d by (simp add: seg_upd_notin)
  then have "dll ?C' (ys @ [y] @ z # zs)"
    using d ends by (auto simp add: dll_def first_ptr_append last_ptr_def)
  with r oa oy oz show ?thesis
    by (simp add: size_at_def)
qed

lemma cache_remove_dll:
  assumes "dll C xs" and "a \<in> set xs"
  shows "\<exists>C'. cache_remove C (Some a) = Inr C' \<and> dll C' (remove1 a xs) \<and>
           bytes_left C' = int_wrap (bytes_left C + size_at C a) \<and> objs C' a = None \<and>
           (\<forall>b. b \<noteq> a \<longrightarrow> keeps C C' b) \<and>
           (\<forall>b. b \<notin> set xs \<longrightarrow> objs C' b = objs C b)"
proof -
  from assms(2) obtain ys zs where xs: "xs = ys @ a # zs"
    by (auto simp: in_set_conv_decomp)
  from assms(1) have nin: "a \<notin> set ys" "a \<notin> set zs"
    by (auto simp: dll_def xs)
  then have rm: "remove1 a xs = ys @ zs"
    by (simp add: xs remove1_append)
  show ?thesis
  proof (cases ys rule: rev_cases)
    case Nil
    note ysN = Nil
    show ?thesis
    proof (cases zs)
      case Nil
      with ysN assms(1) cache_remove_only[of C a] show ?thesis unfolding rm
        by (auto simp: xs keeps_def)
    next
      case (Cons z zs')
      with ysN assms(1) cache_remove_head[of C a z zs'] nin show ?thesis unfolding rm
        by (auto simp: xs keeps_def payload_def)
    qed
  next
    case (snoc ys' y)
    note ysS = snoc
    show ?thesis
    proof (cases zs)
      case Nil
      with ysS assms(1) cache_remove_last[of C ys' y a] nin show ?thesis unfolding rm
        by (auto simp: xs keeps_def payload_def)
    next
      case (Cons z zs')
      with ysS assms(1) cache_remove_mid[of C ys' y a z zs'] nin show ?thesis unfolding rm
        by (auto simp: xs keeps_def payload_def)
    qed
  qed
qed

lemma int_wrap_range: "int_range (int_wrap x)"
proof -
  have "0 \<le> (x + 2 ^ 31) mod (2 ^ 32 :: int)" "(x + 2 ^ 31) mod (2 ^ 32 :: int) < 2 ^ 32"
    by simp_all
  then show ?thesis
    unfolding int_range_def int_wrap_def by simp
qed

lemma int_wrap_dvd: "(2 ^ 32 :: int) dvd int_wrap x - x"
proof -
  have "int_wrap x - x = (x + 2 ^ 31) mod 2 ^ 32 - (x + 2 ^ 31)"
    by (simp add: int_wrap_def)
  also have "\<dots> = - (2 ^ 32 * ((x + 2 ^ 31) div 2 ^ 32))"
    by (simp add: minus_mult_div_eq_mod [symmetric])
  finally show ?thesis by simp
qed

lemma int_wrap_id: "int_range x \<Longrightarrow> int_wrap x = x"
  unfolding int_range_def int_wrap_def by (simp add: mod_pos_pos_trivial)

lemma int_range_cong:
  assumes "int_range a" and "int_range b" and "(2 ^ 32 :: int) dvd a - b"
  shows "a = b"
proof -
  from assms(3) obtain k where k: "a - b = 2 ^ 32 * k" by (auto simp: dvd_def)
  from assms(1,2) have "- (2 ^ 32) < a - b" "a - b < 2 ^ 32"
    by (simp_all add: int_range_def)
  with k have "- 1 < k" "k < 1" by simp_all
  then have "k = 0" by simp
  with k show ?thesis by simp
qed

lemma bytes_inv_bounds:
  assumes "bytes_inv m C xs"
  shows "0 \<le> total_size C xs \<and> bytes_left C \<le> m"
proof -
  from assms have "0 \<le> total_size C xs"
    unfolding total_size_def bytes_inv_def by (intro sum_list_nonneg) auto
  with assms show ?thesis by (simp add: bytes_inv_def)
qed

lemma cache_remove_inv:
  assumes "cache_inv m C xs" and "a \<in> set xs"
  shows "\<exists>C'. cache_remove C (Some a) = Inr C' \<and> cache_inv m C' (remove1 a xs) \<and>
           bytes_left C' = int_wrap (bytes_left C + size_at C a) \<and> objs C' a = None \<and>
           (\<forall>b. b \<noteq> a \<longrightarrow> keeps C C' b) \<and>
           (\<forall>b. b \<notin> set xs \<longrightarrow> objs C' b = objs C b) \<and>
           (bytes_inv m C xs \<longrightarrow>
              bytes_inv m C' (remove1 a xs) \<and> bytes_left C' = bytes_left C + size_at C a)"
proof -
  from assms have d: "dll C xs" and rm: "int_range m" and rb: "int_range (bytes_left C)"
    and t: "2 ^ 32 dvd (total_size C xs + bytes_left C - m)"
    by (simp_all add: cache_inv_def)
  from cache_remove_dll[OF d assms(2)] obtain C' where
    r: "cache_remove C (Some a) = Inr C'" and d': "dll C' (remove1 a xs)"
    and b: "bytes_left C' = int_wrap (bytes_left C + size_at C a)" and f: "objs C' a = None"
    and k: "\<forall>b. b \<noteq> a \<longrightarrow> keeps C C' b"
    and o: "\<forall>b. b \<notin> set xs \<longrightarrow> objs C' b = objs C b"
    by blast
  from d have "distinct xs" by (simp add: dll_def)
  then have na: "a \<notin> set (remove1 a xs)" by simp
  with k have t': "total_size C' (remove1 a xs) = total_size C (remove1 a xs)"
    by (intro total_size_keeps) auto
  have ts: "total_size C xs = size_at C a + total_size C (remove1 a xs)"
    unfolding total_size_def using assms(2) by (rule sum_list_map_remove1)
  have "total_size C' (remove1 a xs) + bytes_left C' - m =
        (total_size C xs + bytes_left C - m) +
        (int_wrap (bytes_left C + size_at C a) - (bytes_left C + size_at C a))"
    using t' ts b by simp
  with t int_wrap_dvd[of "bytes_left C + size_at C a"]
  have "2 ^ 32 dvd (total_size C' (remove1 a xs) + bytes_left C' - m)"
    by (simp only: dvd_add)
  with d' rm b have i': "cache_inv m C' (remove1 a xs)"
    by (simp add: cache_inv_def int_wrap_range)
  have s: "bytes_inv m C' (remove1 a xs) \<and> bytes_left C' = bytes_left C + size_at C a"
    if bi: "bytes_inv m C xs"
  proof -
    from bi have nn: "\<forall>b \<in> set xs. 0 \<le> size_at C b"
      and eq: "total_size C xs + bytes_left C = m"
      by (simp_all add: bytes_inv_def)
    have nn': "\<forall>b \<in> set (remove1 a xs). 0 \<le> size_at C' b"
    proof
      fix b assume b: "b \<in> set (remove1 a xs)"
      with na have "b \<noteq> a" by auto
      with k have "size_at C' b = size_at C b" by (simp add: keeps_size_at)
      moreover from b have "b \<in> set xs" using set_remove1_subset[of a xs] by auto
      ultimately show "0 \<le> size_at C' b" using nn by simp
    qed
    have "0 \<le> total_size C (remove1 a xs)"
      unfolding total_size_def using nn set_remove1_subset[of a xs] by (intro sum_list_nonneg) auto
    with ts eq have "bytes_left C + size_at C a \<le> m" by simp
    moreover from nn assms(2) have "bytes_left C \<le> bytes_left C + size_at C a" by simp
    ultimately have "int_range (bytes_left C + size_at C a)"
      using rm rb by (simp add: int_range_def)
    then have b': "bytes_left C' = bytes_left C + size_at C a"
      using b by (simp add: int_wrap_id)
    with t' ts eq have "total_size C' (remove1 a xs) + bytes_left C' = m" by simp
    with i' nn' b' show ?thesis by (simp add: bytes_inv_def)
  qed
  from r i' b f k o s show ?thesis by blast
qed

subsection \<open>Eviction, insertion, lookup and release\<close>

lemma evict_inv:
  assumes "cache_inv m C xs" and "req \<le> m"
  shows "\<exists>k C'. evict C req = Some (Inr C') \<and> cache_inv m C' (take k xs) \<and>
           req \<le> bytes_left C' \<and>
           (\<forall>b \<in> set (take k xs). keeps C C' b) \<and>
           (\<forall>b. b \<notin> set xs \<longrightarrow> objs C' b = objs C b) \<and>
           (bytes_inv m C xs \<longrightarrow> bytes_inv m C' (take k xs))"
  using assms
proof (induction xs arbitrary: C rule: rev_induct)
  case Nil
  then have "int_range (bytes_left C)" "int_range m" "2 ^ 32 dvd (bytes_left C - m)"
    by (simp_all add: cache_inv_def total_size_def)
  then have bm: "bytes_left C = m"
    by (rule int_range_cong)
  with Nil have "evict C req = Some (Inr C)"
    by (subst evict.simps) simp
  with Nil bm show ?case by auto
next
  case (snoc x xs)
  show ?case
  proof (cases "bytes_left C < req")
    case False
    then have "evict C req = Some (Inr C)"
      by (subst evict.simps) simp
    with False snoc.prems show ?thesis
      by (intro exI[of _ "length (xs @ [x])"] exI[of _ C]) simp
  next
    case True
    from snoc.prems have d: "dll C (xs @ [x])"
      by (simp add: cache_inv_def)
    then have l: "LRA C = Some x" and dist: "x \<notin> set xs"
      by (simp_all add: dll_def)
    from dist have rx: "remove1 x (xs @ [x]) = xs"
      by (simp add: remove1_append)
    from cache_remove_inv[OF snoc.prems(1), of x] rx obtain C1 where
      r: "cache_remove C (Some x) = Inr C1" and i1': "cache_inv m C1 xs"
      and k1: "\<forall>b. b \<noteq> x \<longrightarrow> keeps C C1 b"
      and o1: "\<forall>b. b \<notin> set (xs @ [x]) \<longrightarrow> objs C1 b = objs C b"
      and s1: "bytes_inv m C (xs @ [x]) \<longrightarrow> bytes_inv m C1 xs"
      by auto
    from snoc.IH[OF i1' snoc.prems(2)] obtain k C' where
      e: "evict C1 req = Some (Inr C')" and i2: "cache_inv m C' (take k xs)"
      and b2: "req \<le> bytes_left C'"
      and k2: "\<forall>b \<in> set (take k xs). keeps C1 C' b"
      and o2: "\<forall>b. b \<notin> set xs \<longrightarrow> objs C' b = objs C1 b"
      and s2: "bytes_inv m C1 xs \<longrightarrow> bytes_inv m C' (take k xs)"
      by blast
    have ev: "evict C req = Some (Inr C')"
      using True l r e by (subst evict.simps) simp
    have tk: "take (min k (length xs)) (xs @ [x]) = take k xs"
      by (cases "k \<le> length xs") (simp_all add: min_def)
    have kk: "\<forall>b \<in> set (take k xs). keeps C C' b"
    proof
      fix b assume b: "b \<in> set (take k xs)"
      then have "b \<in> set xs" by (rule in_set_takeD)
      with dist have "b \<noteq> x" by auto
      with k1 have "keeps C C1 b" by simp
      with k2 b show "keeps C C' b" by (blast intro: keeps_trans)
    qed
    have oo: "\<forall>b. b \<notin> set (xs @ [x]) \<longrightarrow> objs C' b = objs C b"
      using o1 o2 by simp
    have ss: "bytes_inv m C (xs @ [x]) \<longrightarrow> bytes_inv m C' (take k xs)"
      using s1 s2 by simp
    show ?thesis
      using ev i2 b2 kk oo ss tk
      by (intro exI[of _ "min k (length xs)"] exI[of _ C']) (simp only: simp_thms)
  qed
qed

lemma evict_drain:
  assumes "bytes_inv m C xs" and "m < req"
  shows "evict C req = Some (Inl NullDeref)"
  using assms
proof (induction xs arbitrary: C rule: rev_induct)
  case Nil
  then have "bytes_left C = m" "LRA C = None"
    by (simp_all add: bytes_inv_def cache_inv_def total_size_def dll_def)
  with Nil.prems(2) show ?case
    by (subst evict.simps) (simp add: cache_remove_def deref_def)
next
  case (snoc x xs)
  from bytes_inv_bounds[OF snoc.prems(1)] snoc.prems(2) have lt: "bytes_left C < req"
    by simp
  from snoc.prems have ci: "cache_inv m C (xs @ [x])"
    by (simp add: bytes_inv_def)
  then have d: "dll C (xs @ [x])"
    by (simp add: cache_inv_def)
  then have l: "LRA C = Some x" and dist: "x \<notin> set xs"
    by (simp_all add: dll_def)
  from dist have rx: "remove1 x (xs @ [x]) = xs"
    by (simp add: remove1_append)
  from cache_remove_inv[OF ci, of x] rx snoc.prems(1) obtain C1 where
    r: "cache_remove C (Some x) = Inr C1" and i1: "bytes_inv m C1 xs"
    by auto
  from snoc.IH[OF i1 snoc.prems(2)] lt l r show ?case
    by (subst evict.simps) simp
qed

lemma cache_insert_inv:
  assumes inv: "cache_inv m C xs"
    and ob: "objs C a = Some ob" "prev ob = None" "next ob = None"
    and fresh: "a \<notin> set xs"
    and sz: "size_obj ob \<le> m"
  shows "\<exists>k C1 C'. evict C (size_obj ob) = Some (Inr C1) \<and> size_obj ob \<le> bytes_left C1 \<and>
           cache_insert C (Some a) = Some (Inr C') \<and> cache_inv m C' (a # take k xs) \<and>
           bytes_left C' = int_wrap (bytes_left C1 - size_obj ob) \<and>
           (\<forall>b \<in> set (a # take k xs). keeps C C' b) \<and>
           (\<forall>b. b \<notin> set (a # xs) \<longrightarrow> objs C' b = objs C b) \<and>
           (0 \<le> size_obj ob \<longrightarrow>
              bytes_left C' = bytes_left C1 - size_obj ob \<and> 0 \<le> bytes_left C') \<and>
           (bytes_inv m C xs \<and> 0 \<le> size_obj ob \<longrightarrow> bytes_inv m C' (a # take k xs))"
proof -
  from evict_inv[OF inv sz] obtain k C1 where
    e: "evict C (size_obj ob) = Some (Inr C1)" and i1: "cache_inv m C1 (take k xs)"
    and b1: "size_obj ob \<le> bytes_left C1"
    and k1: "\<forall>b \<in> set (take k xs). keeps C C1 b"
    and o1: "\<forall>b. b \<notin> set xs \<longrightarrow> objs C1 b = objs C b"
    and s1: "bytes_inv m C xs \<longrightarrow> bytes_inv m C1 (take k xs)"
    by blast
  from o1 fresh ob have oa: "objs C1 a = Some ob" by simp
  from fresh have fr: "a \<notin> set (take k xs)"
    by (auto dest: in_set_takeD)
  from i1 have d1: "dll C1 (take k xs)"
    and rm: "int_range m" and rb1: "int_range (bytes_left C1)"
    and t1: "2 ^ 32 dvd (total_size C1 (take k xs) + bytes_left C1 - m)"
    by (simp_all add: cache_inv_def)
  let ?C2 = "C1\<lparr>bytes_left := int_wrap (bytes_left C1 - size_obj ob)\<rparr>"
  have "\<exists>C'. cache_insert C (Some a) = Some (Inr C') \<and> dll C' (a # take k xs) \<and>
          bytes_left C' = int_wrap (bytes_left C1 - size_obj ob) \<and> keeps C1 C' a \<and>
          (\<forall>b. b \<noteq> a \<longrightarrow> keeps C1 C' b) \<and>
          (\<forall>b. b \<notin> set (a # take k xs) \<longrightarrow> objs C' b = objs C1 b)"
  proof (cases "take k xs")
    case Nil
    with d1 have m1: "MRA C1 = None" by (simp add: dll_def)
    let ?C' = "?C2\<lparr>MRA := Some a, LRA := Some a\<rparr>"
    have "cache_insert C (Some a) = Some (Inr ?C')"
      using ob oa e m1 by (simp add: cache_insert_def deref_def)
    moreover have "dll ?C' [a]"
      using oa ob by (simp add: dll_def last_ptr_def)
    ultimately show ?thesis
      using Nil by (auto simp: keeps_def)
  next
    case (Cons z zs)
    with d1 have m1: "MRA C1 = Some z" and dz: "dll C1 (z # zs)"
      by (simp_all add: dll_def)
    from dz obtain oz where oz: "objs C1 z = Some oz" "prev oz = None"
      "next oz = first_ptr zs None" and sg: "seg (objs C1) (Some z) zs None"
      and dd: "z \<notin> set zs" "distinct zs"
      by (auto simp: dll_def split: option.splits)
    from fr Cons have az: "a \<noteq> z" "a \<notin> set zs" by auto
    let ?h = "(objs C1)(a := Some (ob\<lparr>prev := None, next := Some z\<rparr>),
                         z := Some (oz\<lparr>prev := Some a\<rparr>))"
    let ?C' = "?C2\<lparr>MRA := Some a, objs := ?h\<rparr>"
    have "cache_insert C (Some a) = Some (Inr ?C')"
      using ob oa oz e m1 az
      by (simp add: cache_insert_def deref_def set_prev_def set_next_def)
    moreover have "dll ?C' (a # z # zs)"
      using oz sg dd az dz ob
      by (simp add: dll_def seg_upd_notin last_ptr_def)
    ultimately show ?thesis
      using Cons oa oz az by (auto simp: keeps_def payload_def)
  qed
  then obtain C' where ci: "cache_insert C (Some a) = Some (Inr C')"
    and d': "dll C' (a # take k xs)"
    and b': "bytes_left C' = int_wrap (bytes_left C1 - size_obj ob)"
    and ka: "keeps C1 C' a" and kb: "\<forall>b. b \<noteq> a \<longrightarrow> keeps C1 C' b"
    and o': "\<forall>b. b \<notin> set (a # take k xs) \<longrightarrow> objs C' b = objs C1 b"
    by blast
  have kC1: "keeps C C1 a"
    using oa ob by (simp add: keeps_def)
  have kk: "\<forall>b \<in> set (a # take k xs). keeps C C' b"
  proof
    fix b assume "b \<in> set (a # take k xs)"
    then consider "b = a" | "b \<noteq> a" "b \<in> set (take k xs)" by auto
    then show "keeps C C' b"
    proof cases
      case 1
      with kC1 ka show ?thesis by (blast intro: keeps_trans)
    next
      case 2
      with k1 kb show ?thesis by (blast intro: keeps_trans)
    qed
  qed
  have "total_size C' (a # take k xs) = total_size C (a # take k xs)"
    using kk by (intro total_size_keeps) blast
  also have "\<dots> = size_obj ob + total_size C (take k xs)"
    using ob by (simp add: total_size_def size_at_def)
  also have "total_size C (take k xs) = total_size C1 (take k xs)"
    using k1 by (intro total_size_keeps[symmetric]) blast
  finally have ts: "total_size C' (a # take k xs) = size_obj ob + total_size C1 (take k xs)" .
  have "total_size C' (a # take k xs) + bytes_left C' - m =
        (total_size C1 (take k xs) + bytes_left C1 - m) +
        (int_wrap (bytes_left C1 - size_obj ob) - (bytes_left C1 - size_obj ob))"
    using ts b' by simp
  with t1 int_wrap_dvd[of "bytes_left C1 - size_obj ob"]
  have "2 ^ 32 dvd (total_size C' (a # take k xs) + bytes_left C' - m)"
    by (simp only: dvd_add)
  with d' rm b' have i': "cache_inv m C' (a # take k xs)"
    by (simp add: cache_inv_def int_wrap_range)
  have oo: "\<forall>b. b \<notin> set (a # xs) \<longrightarrow> objs C' b = objs C b"
  proof (intro allI impI)
    fix b assume b: "b \<notin> set (a # xs)"
    then have "b \<notin> set (a # take k xs)" by (auto dest: in_set_takeD)
    with o' have "objs C' b = objs C1 b" by simp
    with o1 b show "objs C' b = objs C b" by simp
  qed
  have nw: "bytes_left C' = bytes_left C1 - size_obj ob \<and> 0 \<le> bytes_left C'"
    if nn: "0 \<le> size_obj ob"
  proof -
    from nn b1 rb1 have "int_range (bytes_left C1 - size_obj ob)"
      by (simp add: int_range_def)
    with b' b1 show ?thesis
      by (simp add: int_wrap_id)
  qed
  have ss: "bytes_inv m C' (a # take k xs)"
    if bi: "bytes_inv m C xs" and nn: "0 \<le> size_obj ob"
  proof -
    from bi s1 have "bytes_inv m C1 (take k xs)" by simp
    then have eq1: "total_size C1 (take k xs) + bytes_left C1 = m"
      by (simp add: bytes_inv_def)
    have "\<forall>b \<in> set (a # take k xs). 0 \<le> size_at C' b"
    proof
      fix b assume b: "b \<in> set (a # take k xs)"
      with kk have "keeps C C' b" by blast
      then have e: "size_at C' b = size_at C b" by (rule keeps_size_at)
      from b consider "b = a" | "b \<in> set xs" by (auto dest: in_set_takeD)
      then show "0 \<le> size_at C' b"
      proof cases
        case 1
        with e ob nn show ?thesis by (simp add: size_at_def)
      next
        case 2
        with e bi show ?thesis by (simp add: bytes_inv_def)
      qed
    qed
    with i' ts eq1 nw[OF nn] show ?thesis
      by (simp add: bytes_inv_def)
  qed
  from e b1 ci i' b' kk oo nw ss show ?thesis by blast
qed

lemma scan_from_seg:
  assumes "seg (objs C) p xs None"
  shows "scan_from C (first_ptr xs None) req =
           Some (Inr (List.find (\<lambda>a. request_at C a = Some req) xs))"
  using assms
proof (induction xs arbitrary: p)
  case Nil
  show ?case by (subst scan_from.simps) simp
next
  case (Cons a as)
  from Cons.prems obtain ob where ob: "objs C a = Some ob" "next ob = first_ptr as None"
    and sg: "seg (objs C) (Some a) as None"
    by (auto split: option.splits)
  from Cons.IH[OF sg] ob show ?case
    by (subst scan_from.simps) (auto simp: request_at_def)
qed

lemma find_request_dll:
  assumes "dll C xs"
  shows "find_request C req = Some (Inr (List.find (\<lambda>a. request_at C a = Some req) xs))"
  using assms scan_from_seg[of C None xs req]
  by (simp add: find_request_def dll_def)

lemma cache_inv_Nil: "cache_inv m C [] \<Longrightarrow> bytes_left C = m \<and> bytes_inv m C []"
proof -
  assume i: "cache_inv m C []"
  then have "int_range (bytes_left C)" "int_range m" "2 ^ 32 dvd (bytes_left C - m)"
    by (simp_all add: cache_inv_def total_size_def)
  then have "bytes_left C = m" by (rule int_range_cong)
  with i show ?thesis by (simp add: bytes_inv_def total_size_def)
qed


lemma cache_inv_init: "int_range m \<Longrightarrow> cache_inv m (cache_init m) []"
  by (simp add: cache_inv_def dll_def cache_init_def total_size_def)

lemma cache_inv_new_object:
  assumes "cache_inv m C xs" and "objs C a = None"
  shows "cache_inv m (new_object a req resp sz C) xs \<and> a \<notin> set xs \<and>
         (bytes_inv m C xs \<longrightarrow> bytes_inv m (new_object a req resp sz C) xs)"
proof -
  from assms have d: "dll C xs" by (simp add: cache_inv_def)
  then have "\<And>b. b \<in> set xs \<Longrightarrow> \<exists>ob. objs C b = Some ob"
    by (auto simp: dll_def dest: seg_in_dom)
  with assms(2) have nin: "a \<notin> set xs" by force
  then have t: "total_size (new_object a req resp sz C) xs = total_size C xs"
    by (intro total_size_keeps) (auto simp: keeps_def new_object_def)
  with assms(1) nin have i: "cache_inv m (new_object a req resp sz C) xs"
    by (simp add: cache_inv_def dll_def new_object_def seg_upd_notin)
  from nin have "\<forall>b \<in> set xs. size_at (new_object a req resp sz C) b = size_at C b"
    by (auto simp: size_at_def new_object_def)
  with i t nin show ?thesis
    by (simp add: bytes_inv_def new_object_def)
qed

lemma cache_op_inv:
  assumes "cache_inv m C xs" and "op_ok m C op"
  shows "\<exists>C' xs'. cache_op C op = Some (Inr C') \<and> cache_inv m C' xs' \<and>
           (bytes_inv m C xs \<and> op_bytes op \<longrightarrow> bytes_inv m C' xs')"
proof (cases op)
  case (Insert a req resp sz)
  with assms have f: "objs C a = None" and sz: "sz \<le> m" by simp_all
  let ?C0 = "new_object a req resp sz C"
  from cache_inv_new_object[OF assms(1) f] have i0: "cache_inv m ?C0 xs" and nin: "a \<notin> set xs"
    and s0: "bytes_inv m C xs \<longrightarrow> bytes_inv m ?C0 xs"
    by simp_all
  have "\<exists>ob. objs ?C0 a = Some ob \<and> prev ob = None \<and> next ob = None \<and> size_obj ob = sz"
    by (simp add: new_object_def)
  then obtain ob where ob: "objs ?C0 a = Some ob" "prev ob = None" "next ob = None"
    "size_obj ob = sz"
    by blast
  from cache_insert_inv[OF i0 ob(1-3) nin] sz ob(4) obtain k C' where
    "cache_insert ?C0 (Some a) = Some (Inr C')" "cache_inv m C' (a # take k xs)"
    "bytes_inv m ?C0 xs \<and> 0 \<le> sz \<longrightarrow> bytes_inv m C' (a # take k xs)"
    by auto
  with s0 Insert show ?thesis
    by auto
next
  case (Remove a)
  with assms have "resident C a" by simp
  with assms(1) have "a \<in> set xs"
    by (auto simp: cache_inv_def intro: resident_in_list)
  with cache_remove_inv[OF assms(1), of a] Remove show ?thesis
    by auto
next
  case (Find req)
  from assms(1) have "dll C xs" by (simp add: cache_inv_def)
  from find_request_dll[OF this, of req] Find assms(1) show ?thesis
    by auto
qed

lemma reach_inv: "reach m C \<Longrightarrow> \<exists>xs. cache_inv m C xs"
proof (induction rule: reach.induct)
  case reach_init
  then show ?case using cache_inv_init by blast
next
  case (reach_op C op C')
  then obtain xs where "cache_inv m C xs" by blast
  from cache_op_inv[OF this reach_op.hyps(2)] reach_op.hyps(3) show ?case
    by auto
qed

lemma reach_bytes_inv: "reach_bytes m C \<Longrightarrow> \<exists>xs. bytes_inv m C xs"
proof (induction rule: reach_bytes.induct)
  case reach_bytes_init
  then show ?case using cache_inv_init cache_inv_Nil by blast
next
  case (reach_bytes_op C op C')
  then obtain xs where b: "bytes_inv m C xs" by blast
  then have "cache_inv m C xs" by (simp add: bytes_inv_def)
  from cache_op_inv[OF this reach_bytes_op.hyps(2)] reach_bytes_op.hyps(3,4) b show ?case
    by auto
qed

lemma reach_cache_inv:
  assumes "reach m C" and "dll C xs"
  shows "cache_inv m C xs"
proof -
  from reach_inv[OF assms(1)] obtain ys where i: "cache_inv m C ys" by blast
  then have "dll C ys" by (simp add: cache_inv_def)
  from dll_unique[OF this assms(2)] i show ?thesis by simp
qed

lemma reach_bytes_cache_inv:
  assumes "reach_bytes m C" and "dll C xs"
  shows "bytes_inv m C xs"
proof -
  from reach_bytes_inv[OF assms(1)] obtain ys where i: "bytes_inv m C ys" by blast
  then have "dll C ys" by (simp add: bytes_inv_def cache_inv_def)
  from dll_unique[OF this assms(2)] i show ?thesis by simp
qed

subsection \<open>The scenarios\<close>

lemmas cache_eval = Let_def last_ptr_def cache_insert_def new_object_def cache_init_def deref_def evict.simps
  cache_remove_def free_obj_def set_prev_def set_next_def find_request_def scan_from.simps
  int_wrap_def int_range_def

lemma cache_A_op: "cache_op (cache_init 100) (Insert 10 ''o1'' ''r1'' 60) = Some (Inr cache_A)"
  by (simp add: cache_eval cache_A_def)

lemma cache_E_op: "cache_op cache_A (Insert 20 ''o2'' ''r2'' 50) = Some (Inr cache_E)"
  by (simp add: cache_eval cache_A_def cache_E_def)

lemma cache_D_op: "cache_op cache_A (Insert 20 ''o1'' ''r2'' 20) = Some (Inr cache_D)"
  by (simp add: cache_eval cache_A_def cache_D_def)


lemma reach_cache_A: "reach 100 cache_A"
  by (rule reach_op[OF reach_init _ cache_A_op]) (simp_all add: cache_init_def int_range_def)


lemma reach_bytes_cache_A: "reach_bytes 100 cache_A"
  by (rule reach_bytes_op[OF reach_bytes_init _ _ cache_A_op])
    (simp_all add: cache_init_def int_range_def)



lemma dll_cache_A: "dll cache_A [10]"
  by (simp add: dll_def cache_A_def last_ptr_def)

lemma dll_cache_E: "dll cache_E [20]"
  by (simp add: dll_def cache_E_def last_ptr_def)

subsection \<open>The claims about the cache\<close>




lemma cache_op_insert_front:
  assumes "reach max_size C" and "dll C xs" and "op_ok max_size C (Insert a req resp obj_size)"
  shows "\<exists>k C'. cache_op C (Insert a req resp obj_size) = Some (Inr C') \<and>
           dll C' (a # take k xs) \<and>
           find_request C' req = Some (Inr (Some a)) \<and>
           cache_op C' (Find req) = Some (Inr C')"
proof -
  from assms have f: "objs C a = None" and sz: "obj_size \<le> max_size" by simp_all
  let ?C0 = "new_object a req resp obj_size C"
  from reach_cache_inv[OF assms(1,2)] have i: "cache_inv max_size C xs" .
  from cache_inv_new_object[OF i f] have i0: "cache_inv max_size ?C0 xs" and nin: "a \<notin> set xs"
    by simp_all
  let ?ob = "\<lparr>request = req, response = resp, size_obj = obj_size, prev = None, next = None\<rparr>"
  have oa: "objs ?C0 a = Some ?ob" by (simp add: new_object_def)
  from cache_insert_inv[OF i0 oa _ _ nin] sz obtain k C' where
    ci: "cache_insert ?C0 (Some a) = Some (Inr C')"
    and i': "cache_inv max_size C' (a # take k xs)"
    and kk: "\<forall>b \<in> set (a # take k xs). keeps ?C0 C' b"
    by auto
  from i' have d': "dll C' (a # take k xs)" by (simp add: cache_inv_def)
  from kk have "keeps ?C0 C' a" by simp
  then have "request_at C' a = Some req"
    using oa by (cases "objs C' a") (auto simp: keeps_def payload_def request_at_def)
  with find_request_dll[OF d', of req] have fr: "find_request C' req = Some (Inr (Some a))"
    by simp
  then have "cache_op C' (Find req) = Some (Inr C')" by simp
  with ci d' fr show ?thesis by auto
qed

text \<open>
  Claim C3. In a cache built from \<open>cache_init max_size\<close> that holds the list \<open>xs\<close>,
  the insertion of a new object of size at most \<open>max_size\<close> returns; the new list is the
  new object followed by the first \<open>k\<close> objects of \<open>xs\<close> in their order (the
  evicted objects are the last ones of \<open>xs\<close>); \<open>find_request\<close> on the request of
  the new object returns the new object; and the lookup leaves the cache as it is, list
  order included.
\<close>

theorem insert_then_find:
  assumes "reach max_size C" and "dll C xs" and "op_ok max_size C (Insert a req resp obj_size)"
  shows "\<exists>k C'. cache_op C (Insert a req resp obj_size) = Some (Inr C') \<and>
           dll C' (a # take k xs) \<and>
           find_request C' req = Some (Inr (Some a)) \<and>
           cache_op C' (Find req) = Some (Inr C')"
  using assms by (rule cache_op_insert_front)

theorem insert_then_find_witness:
  "reach 100 cache_A \<and> dll cache_A [10] \<and> op_ok 100 cache_A (Insert 20 ''o2'' ''r2'' 50) \<and>
   (\<exists>k C'. cache_op cache_A (Insert 20 ''o2'' ''r2'' 50) = Some (Inr C') \<and>
           dll C' (20 # take k [10]) \<and>
           find_request C' ''o2'' = Some (Inr (Some 20)) \<and>
           cache_op C' (Find ''o2'') = Some (Inr C')) \<and>
   cache_op cache_A (Insert 20 ''o2'' ''r2'' 50) = Some (Inr cache_E) \<and> dll cache_E [20]"
proof -
  have ok: "op_ok 100 cache_A (Insert 20 ''o2'' ''r2'' 50)"
    by (simp add: cache_A_def int_range_def)
  from insert_then_find[OF reach_cache_A dll_cache_A ok] reach_cache_A dll_cache_A ok cache_E_op
    dll_cache_E
  show ?thesis by simp
qed

lemma filled_reach: "filled m C hist \<Longrightarrow> reach m C"
proof (induction rule: filled.induct)
  case filled_init
  then show ?case by (rule reach_init)
next
  case (filled_insert C hist a req resp obj_size C')
  then show ?case by (blast intro: reach_op)
next
  case (filled_find C hist req C')
  have "op_ok m C (Find req)" by simp
  with filled_find show ?case by (blast intro: reach_op)
qed

lemma filled_prefix: "filled m C hist \<Longrightarrow> \<exists>k. dll C (take k hist)"
proof (induction rule: filled.induct)
  case filled_init
  then show ?case using cache_inv_init[of m] by (simp add: cache_inv_def)
next
  case (filled_insert C hist a req resp obj_size C')
  then obtain k where d: "dll C (take k hist)" by blast
  from cache_op_insert_front[OF filled_reach[OF filled_insert.hyps(1)] d filled_insert.hyps(2)]
    filled_insert.hyps(3)
  obtain j where "dll C' (a # take j (take k hist))" by auto
  then have "dll C' (take (Suc (min j k)) (a # hist))" by simp
  then show ?case by blast
next
  case (filled_find C hist req C')
  then have "C' = C" by (auto split: option.splits sum.splits)
  with filled_find.IH show ?case by simp
qed

text \<open>
  Claim C10. After a sequence of insertions and lookups, with \<open>hist\<close> the inserted
  addresses (the last inserted first), the cache holds the first \<open>k\<close> addresses of
  \<open>hist\<close>, and \<open>find_request\<close> returns the first of them whose request equals the
  key: among several resident objects with the same request, the one inserted last.
\<close>

theorem find_request_most_recent:
  assumes "filled max_size C hist"
  shows "\<exists>k. dll C (take k hist) \<and>
           find_request C req =
             Some (Inr (List.find (\<lambda>a. request_at C a = Some req) (take k hist)))"
  using filled_prefix[OF assms] find_request_dll by blast

lemma filled_cache_D: "filled 100 cache_D [20, 10]"
proof -
  have "filled 100 cache_A [10]"
    by (rule filled_insert[OF filled_init _ cache_A_op])
      (simp_all add: cache_init_def int_range_def)
  then show ?thesis
    by (rule filled_insert[OF _ _ cache_D_op]) (simp add: cache_A_def int_range_def)
qed

theorem find_request_most_recent_witness:
  "filled 100 cache_D [20, 10] \<and>
   (\<exists>k. dll cache_D (take k [20, 10]) \<and>
        find_request cache_D ''o1'' =
          Some (Inr (List.find (\<lambda>a. request_at cache_D a = Some ''o1'') (take k [20, 10])))) \<and>
   dll cache_D [20, 10] \<and> find_request cache_D ''o1'' = Some (Inr (Some 20))"
proof -
  have "dll cache_D [20, 10]"
    by (simp add: dll_def cache_D_def last_ptr_def)
  moreover have "find_request cache_D ''o1'' = Some (Inr (Some 20))"
    by (simp add: cache_eval cache_D_def)
  ultimately show ?thesis
    using find_request_most_recent[OF filled_cache_D, of "''o1''"] filled_cache_D by simp
qed

text \<open>
  Claim C8, as the code has it. In a cache built from \<open>cache_init max_size\<close>, for a new
  object whose size is an \<open>int\<close> at most \<open>max_size\<close> the eviction loop returns with
  \<open>bytes_left\<close> at least the size, and the insertion returns with \<open>bytes_left\<close>
  decreased by the size in 32-bit arithmetic; when the size is not negative the subtraction
  does not wrap around and \<open>bytes_left\<close> is not negative afterwards. For a new object
  larger than \<open>max_size\<close>, in a cache built by insertions of sizes that are not
  negative, the loop removes every object and then calls \<open>cache_remove\<close> on the null
  \<open>LRA\<close>: the insertion ends in the null dereference, and no cache with a negative
  \<open>bytes_left\<close> is returned.
\<close>

theorem cache_insert_budget:
  assumes "reach max_size C" and "dll C xs" and "objs C a = None" and "int_range obj_size"
  shows "(obj_size \<le> max_size \<longrightarrow>
           (\<exists>C1 C'. evict (new_object a req resp obj_size C) obj_size = Some (Inr C1) \<and>
                obj_size \<le> bytes_left C1 \<and>
                cache_insert (new_object a req resp obj_size C) (Some a) = Some (Inr C') \<and>
                bytes_left C' = int_wrap (bytes_left C1 - obj_size) \<and>
                (0 \<le> obj_size \<longrightarrow>
                   bytes_left C' = bytes_left C1 - obj_size \<and> 0 \<le> bytes_left C'))) \<and>
         (max_size < obj_size \<and> reach_bytes max_size C \<longrightarrow>
           cache_insert (new_object a req resp obj_size C) (Some a) = Some (Inl NullDeref))"
proof -
  let ?C0 = "new_object a req resp obj_size C"
  from reach_cache_inv[OF assms(1,2)] have i: "cache_inv max_size C xs" .
  from cache_inv_new_object[OF i assms(3)] have i0: "cache_inv max_size ?C0 xs"
    and nin: "a \<notin> set xs"
    and s0: "bytes_inv max_size C xs \<longrightarrow> bytes_inv max_size ?C0 xs"
    by simp_all
  let ?ob = "\<lparr>request = req, response = resp, size_obj = obj_size, prev = None, next = None\<rparr>"
  have oa: "objs ?C0 a = Some ?ob" by (simp add: new_object_def)
  have 1: "\<exists>C1 C'. evict ?C0 obj_size = Some (Inr C1) \<and> obj_size \<le> bytes_left C1 \<and>
                cache_insert ?C0 (Some a) = Some (Inr C') \<and>
                bytes_left C' = int_wrap (bytes_left C1 - obj_size) \<and>
                (0 \<le> obj_size \<longrightarrow>
                   bytes_left C' = bytes_left C1 - obj_size \<and> 0 \<le> bytes_left C')"
    if "obj_size \<le> max_size"
  proof -
    have "prev ?ob = None" "next ?ob = None" "size_obj ?ob \<le> max_size"
      using that by simp_all
    from cache_insert_inv[OF i0 oa this(1,2) nin this(3)] show ?thesis
      by (simp only: object.simps) blast
  qed
  have 2: "cache_insert ?C0 (Some a) = Some (Inl NullDeref)"
    if "max_size < obj_size" and rb: "reach_bytes max_size C"
  proof -
    from reach_bytes_cache_inv[OF rb assms(2)] s0 have "bytes_inv max_size ?C0 xs" by simp
    from evict_drain[OF this that(1)] oa show ?thesis
      by (simp add: cache_insert_def deref_def)
  qed
  from 1 2 show ?thesis by blast
qed

theorem cache_insert_budget_witness:
  "reach 100 cache_A \<and> reach_bytes 100 cache_A \<and> dll cache_A [10] \<and>
   objs cache_A 20 = None \<and> int_range 50 \<and> int_range 150 \<and>
   (\<exists>C1 C'. evict (new_object 20 ''o2'' ''r2'' 50 cache_A) 50 = Some (Inr C1) \<and>
        50 \<le> bytes_left C1 \<and>
        cache_insert (new_object 20 ''o2'' ''r2'' 50 cache_A) (Some 20) = Some (Inr C') \<and>
        bytes_left C' = bytes_left C1 - 50 \<and> 0 \<le> bytes_left C') \<and>
   cache_insert (new_object 20 ''o2'' ''r2'' 150 cache_A) (Some 20) = Some (Inl NullDeref)"
proof -
  have f: "objs cache_A 20 = None" by (simp add: cache_A_def)
  have r: "int_range 50" "int_range 150" by (simp_all add: int_range_def)
  from cache_insert_budget[OF reach_cache_A dll_cache_A f r(1), of "''o2''" "''r2''"]
  have 1: "\<exists>C1 C'. evict (new_object 20 ''o2'' ''r2'' 50 cache_A) 50 = Some (Inr C1) \<and>
        50 \<le> bytes_left C1 \<and>
        cache_insert (new_object 20 ''o2'' ''r2'' 50 cache_A) (Some 20) = Some (Inr C') \<and>
        bytes_left C' = bytes_left C1 - 50 \<and> 0 \<le> bytes_left C'"
    by auto
  from cache_insert_budget[OF reach_cache_A dll_cache_A f r(2), of "''o2''" "''r2''"]
    reach_bytes_cache_A
  have 2: "cache_insert (new_object 20 ''o2'' ''r2'' 150 cache_A) (Some 20) =
      Some (Inl NullDeref)"
    by simp
  from 1 2 reach_cache_A reach_bytes_cache_A dll_cache_A f r show ?thesis
    by blast
qed

text \<open>
  Against claim C8 as stated: with capacity 100 and an empty list, the insertion of an object
  of 150 bytes does not return a cache with a negative counter; it dereferences the null
  \<open>LRA\<close>.
\<close>

theorem cache_insert_oversized_counterexample:
  "cache_insert (new_object 10 ''k'' ''v'' 150 (cache_init 100)) (Some 10) = Some (Inl NullDeref)"
  by (simp add: cache_eval)

section \<open>Properties of the allocator\<close>

subsection \<open>Size classes\<close>

lemma word_div6_0: "unat (num :: word64) < 6 \<Longrightarrow> num div 6 = 0"
  by (simp add: word_unat_eq_iff unat_div)

lemma bucket_loop_digits:
  fixes num :: word64
  shows "unat num < 6 ^ k \<Longrightarrow> (0 < k \<Longrightarrow> 6 ^ (k - 1) \<le> unat num) \<Longrightarrow>
    bucket_loop num lg = lg + int k"
proof (induction k arbitrary: num lg)
  case 0
  then have "num = 0" by (simp add: unat_0_iff)
  then show ?case by simp
next
  case (Suc k)
  from Suc.prems have "0 < unat num"
    by (cases "unat num") simp_all
  then have nz: "num \<noteq> 0" by (simp add: unat_gt_0)
  have u: "unat (num div 6) = unat num div 6" by (simp add: unat_div)
  from Suc.prems(1) have a: "unat (num div 6) < 6 ^ k"
    by (simp add: u less_mult_imp_div_less)
  have b: "6 ^ (k - 1) \<le> unat (num div 6)" if "0 < k"
  proof -
    from that obtain j where k: "k = Suc j" by (cases k) simp_all
    with Suc.prems(2) have "6 * 6 ^ j \<le> unat num" by simp
    then have "6 ^ j \<le> unat num div 6" by simp
    with k show ?thesis by (simp add: u)
  qed
  from Suc.IH[OF a b, of "lg + 1"] nz show ?case by simp
qed

lemma floor_log6:
  fixes x :: real
  assumes "6 ^ k \<le> x" and "x < 6 ^ Suc k"
  shows "\<lfloor>log 6 x\<rfloor> = int k"
proof -
  have "(0::real) < 6 ^ k" by simp
  with assms(1) have x0: "0 < x" by linarith
  have "\<lfloor>log 6 x\<rfloor> = int k \<longleftrightarrow>
          6 powr (real_of_int (int k)) \<le> x \<and> x < 6 powr (real_of_int (int k + 1))"
    using x0 by (intro floor_log_eq_powr_iff) simp_all
  moreover have "(6::real) powr (real_of_int (int k)) = 6 ^ k"
    by (simp add: powr_realpow)
  moreover have "(6::real) powr (real_of_int (int k + 1)) = 6 ^ Suc k"
    using powr_realpow[of 6 "Suc k"] by (simp add: add.commute)
  ultimately show ?thesis using assms by simp
qed

lemma bucket_small:
  fixes s :: word64
  assumes lo: "32 * 6 ^ k \<le> unat s" and hi: "unat s < 32 * 6 ^ Suc k" and k: "k \<le> 3"
  shows "bucket s = 8 * of_nat k \<and> \<lfloor>log 6 (real (unat s) / 32)\<rfloor> = int k"
proof -
  let ?n = "unat s div 32"
  have un: "unat (s div 32) = ?n" by (simp add: unat_div)
  from lo have n1: "6 ^ k \<le> ?n" by simp
  from hi have n2: "?n < 6 ^ Suc k" by (simp add: less_mult_imp_div_less mult.commute)
  from k have "(6::nat) ^ Suc k \<le> 6 ^ 4" by (intro power_increasing) simp_all
  with n2 have "?n < 1296" by simp
  then have c: "\<not> 1296 \<le> s div 32"
    by (simp add: word_le_nat_alt un)
  let ?m = "(s div 32) div 6"
  have um: "unat ?m = ?n div 6" by (simp add: unat_div)
  have a: "unat ?m < 6 ^ k"
    using n2 by (simp add: um less_mult_imp_div_less)
  have b: "6 ^ (k - 1) \<le> unat ?m" if "0 < k"
  proof -
    from that obtain j where kj: "k = Suc j" by (cases k) simp_all
    with n1 have "6 * 6 ^ j \<le> ?n" by simp
    then have "6 ^ j \<le> ?n div 6" by simp
    with kj show ?thesis by (simp add: um)
  qed
  from bucket_loop_digits[OF a b, of 0] have "bucket_loop ?m 0 = int k" by simp
  with c have 1: "bucket s = 8 * of_nat k"
    by (simp add: bucket_def Let_def mult.commute)
  have "(6::real) ^ k \<le> real (unat s) / 32"
  proof -
    from lo have "real (32 * 6 ^ k) \<le> real (unat s)" by (simp only: of_nat_le_iff)
    then show ?thesis by simp
  qed
  moreover have "real (unat s) / 32 < 6 ^ Suc k"
  proof -
    from hi have "real (unat s) < real (32 * 6 ^ Suc k)" by (simp only: of_nat_less_iff)
    then show ?thesis by simp
  qed
  ultimately have "\<lfloor>log 6 (real (unat s) / 32)\<rfloor> = int k" by (rule floor_log6)
  with 1 show ?thesis by simp
qed

lemma bucket_large:
  fixes s :: word64
  assumes "32 * 1296 \<le> unat s"
  shows "bucket s = (5 - 1) * 8 \<and> 4 \<le> \<lfloor>log 6 (real (unat s) / 32)\<rfloor>"
proof -
  have un: "unat (s div 32) = unat s div 32" by (simp add: unat_div)
  from assms have "1296 \<le> unat s div 32" by simp
  then have c: "1296 \<le> s div 32"
    by (simp add: word_le_nat_alt un)
  then have 1: "bucket s = (5 - 1) * 8"
    by (simp add: bucket_def Let_def)
  from assms have "real (32 * 1296) \<le> real (unat s)" by (simp only: of_nat_le_iff)
  then have "(6::real) powr 4 \<le> real (unat s) / 32" by simp
  then have "4 \<le> log 6 (real (unat s) / 32)"
    by (simp add: le_log_iff)
  then have "4 \<le> \<lfloor>log 6 (real (unat s) / 32)\<rfloor>" by (simp add: le_floor_iff)
  with 1 show ?thesis by simp
qed

lemma bucket_range: "\<exists>k \<le> 4. bucket s = 8 * of_nat k"
proof (cases "32 \<le> unat s")
  case False
  then have "unat (s div 32) = 0" by (simp add: unat_div)
  then have "s div 32 = 0" by (simp add: unat_0_iff)
  then have "bucket s = 0" by (simp add: bucket_def)
  then show ?thesis by (intro exI[of _ 0]) simp
next
  case s32: True
  show ?thesis
  proof (cases "32 * 1296 \<le> unat s")
    case True
    from bucket_large[OF True] show ?thesis by (intro exI[of _ 4]) simp
  next
    case False
    with s32 consider "unat s < 32 * 6" | "32 * 6 \<le> unat s" "unat s < 32 * 36"
      | "32 * 36 \<le> unat s" "unat s < 32 * 216" | "32 * 216 \<le> unat s" "unat s < 32 * 1296"
      by linarith
    then have "\<exists>k \<le> 3. 32 * 6 ^ k \<le> unat s \<and> unat s < 32 * 6 ^ Suc k"
    proof cases
      case 1
      with s32 show ?thesis by (intro exI[of _ 0]) simp
    next
      case 2
      then show ?thesis by (intro exI[of _ 1]) simp
    next
      case 3
      then show ?thesis by (intro exI[of _ 2]) simp
    next
      case 4
      then show ?thesis by (intro exI[of _ 3]) simp
    qed
    then obtain k where k: "k \<le> 3" "32 * 6 ^ k \<le> unat s" "unat s < 32 * 6 ^ Suc k" by blast
    from bucket_small[OF k(2,3,1)] k(1) show ?thesis by (intro exI[of _ k]) simp
  qed
qed

text \<open>
  Claim C5. For every block size \<open>s\<close> of at least 32, \<open>bucket s\<close> is 8 times the
  class \<open>min (SEGS - 1) (floor (log 6 (s / 32)))\<close>, and every size of at least
  \<open>32 * 1296\<close> is in the last class, \<open>SEGS - 1 = 4\<close>.
\<close>

theorem bucket_class:
  fixes s :: word64
  assumes "32 \<le> s"
  shows "bucket s = 8 * of_nat (nat (min (5 - 1) \<lfloor>log 6 (real (unat s) / 32)\<rfloor>)) \<and>
         (32 * 1296 \<le> s \<longrightarrow> bucket s = (5 - 1) * 8)"
proof -
  from assms have s32: "32 \<le> unat s" by (simp add: word_le_nat_alt)
  show ?thesis
  proof (cases "32 * 1296 \<le> unat s")
    case True
    from bucket_large[OF True] show ?thesis by (simp add: min_def)
  next
    case False
    then have nl: "\<not> 32 * 1296 \<le> s" by (simp add: word_le_nat_alt)
    from s32 False consider "unat s < 32 * 6" | "32 * 6 \<le> unat s" "unat s < 32 * 36"
      | "32 * 36 \<le> unat s" "unat s < 32 * 216" | "32 * 216 \<le> unat s" "unat s < 32 * 1296"
      by linarith
    then have "\<exists>k \<le> 3. 32 * 6 ^ k \<le> unat s \<and> unat s < 32 * 6 ^ Suc k"
    proof cases
      case 1
      with s32 show ?thesis by (intro exI[of _ 0]) simp
    next
      case 2
      then show ?thesis by (intro exI[of _ 1]) simp
    next
      case 3
      then show ?thesis by (intro exI[of _ 2]) simp
    next
      case 4
      then show ?thesis by (intro exI[of _ 3]) simp
    qed
    then obtain k where "k \<le> 3" "32 * 6 ^ k \<le> unat s" "unat s < 32 * 6 ^ Suc k" by blast
    from bucket_small[OF this(2,3,1)] \<open>k \<le> 3\<close> nl show ?thesis by (simp add: min_def)
  qed
qed

theorem bucket_class_witness:
  "(32 :: word64) \<le> 41472 \<and>
   bucket 41472 = 8 * of_nat (nat (min (5 - 1) \<lfloor>log 6 (real (unat (41472 :: word64)) / 32)\<rfloor>)) \<and>
   bucket 41472 = 32"
proof -
  have b: "(32 :: word64) \<le> 41472" by simp
  have c: "(32 :: word64) * 1296 \<le> 41472" by simp
  from bucket_class[OF b] have
    "bucket 41472 = 8 * of_nat (nat (min (5 - 1) \<lfloor>log 6 (real (unat (41472 :: word64)) / 32)\<rfloor>))"
    and "32 * 1296 \<le> (41472 :: word64) \<longrightarrow> bucket 41472 = (5 - 1) * 8"
    by blast+
  with b c show ?thesis by simp
qed

subsection \<open>The search for a fit\<close>

lemma arg_min_list_snoc:
  "xs \<noteq> [] \<Longrightarrow>
   arg_min_list f (xs @ [b]) = (if f b < f (arg_min_list f xs) then b else arg_min_list f xs)"
proof (induction f xs rule: arg_min_list.induct)
  case (1 f x)
  show ?case by (auto simp: Let_def)
next
  case (2 f x y zs)
  then show ?case by (auto simp: Let_def)
next
  case (3 f)
  then show ?case by simp
qed

lemma arg_min_list_first:
  "(\<forall>x \<in> set xs. f b < f x) \<Longrightarrow> (\<forall>y \<in> set ys. f b \<le> f y) \<Longrightarrow>
   arg_min_list f (xs @ b # ys) = b"
proof (induction xs)
  case Nil
  then show ?case
  proof (induction ys arbitrary: b rule: rev_induct)
    case Nil
    show ?case by simp
  next
    case (snoc y ys)
    then have "arg_min_list f (b # ys) = b" by simp
    with snoc.prems show ?case
      using arg_min_list_snoc[of "b # ys" f y] by auto
  qed
next
  case (Cons x xs)
  then have IH: "arg_min_list f (xs @ b # ys) = b" by simp
  obtain z zs where "xs @ b # ys = z # zs" by (cases xs) auto
  with IH Cons.prems show ?case by (auto simp: Let_def)
qed

lemma best_fit_snoc:
  "best_fit h (cs @ [b]) =
     (if cs = [] \<or> block_size h b < block_size h (best_fit h cs) then b else best_fit h cs)"
  by (auto simp: best_fit_def arg_min_list_snoc word_less_nat_alt)

lemma best_fit_in: "cs \<noteq> [] \<Longrightarrow> best_fit h cs \<in> set cs"
  by (simp add: best_fit_def arg_min_list_in)

lemma count_lt_10:
  "n \<le> 10 \<Longrightarrow> ((of_nat n :: word64) < 10) = (n < 10)"
  by (simp add: word_less_nat_alt unat_of_nat)

lemma walk_fits_le: "length (fits h asize (walk h asize k bs)) \<le> 10 - k"
proof (induction bs arbitrary: k)
  case Nil
  show ?case by (simp add: fits_def)
next
  case (Cons b bs)
  show ?case
  proof (cases "asize \<le> block_size h b")
    case True
    with Cons[of "Suc k"] show ?thesis by (auto simp: fits_def)
  next
    case False
    with Cons[of k] show ?thesis by (auto simp: fits_def)
  qed
qed

lemma walk_prefix: "\<exists>n. walk h asize k bs = take n bs"
proof (induction bs arbitrary: k)
  case Nil
  show ?case by simp
next
  case (Cons b bs)
  from Cons[of "if asize \<le> block_size h b then Suc k else k"] obtain n where
    n: "walk h asize (if asize \<le> block_size h b then Suc k else k) bs = take n bs" by blast
  show ?case
  proof (cases "10 \<le> k")
    case True
    then have "walk h asize k (b # bs) = take 0 (b # bs)" by simp
    then show ?thesis by blast
  next
    case k: False
    show ?thesis
    proof (cases "block_size h b = asize")
      case True
      with k have "walk h asize k (b # bs) = take 1 (b # bs)" by simp
      then show ?thesis by blast
    next
      case False
      with k n have "walk h asize k (b # bs) = take (Suc n) (b # bs)" by simp
      then show ?thesis by blast
    qed
  qed
qed

lemma walk_exact_last:
  "b \<in> set (walk h asize k bs) \<Longrightarrow> block_size h b = asize \<Longrightarrow> last (walk h asize k bs) = b"
proof (induction bs arbitrary: k)
  case Nil
  then show ?case by simp
next
  case (Cons x bs)
  show ?case
  proof (cases "10 \<le> k \<or> block_size h x = asize")
    case True
    with Cons.prems show ?thesis by (auto split: if_splits)
  next
    case False
    let ?k = "if asize \<le> block_size h x then Suc k else k"
    from False have w: "walk h asize k (x # bs) = x # walk h asize ?k bs" by simp
    with Cons.prems False have "b \<in> set (walk h asize ?k bs)" by auto
    with Cons.IH[of ?k] Cons.prems(2) have "last (walk h asize ?k bs) = b"
      and "walk h asize ?k bs \<noteq> []" by auto
    with w show ?thesis by simp
  qed
qed

lemma best_fit_walk:
  assumes "\<forall>c \<in> set cs. asize < block_size h c"
  shows "best_fit h (cs @ fits h asize (walk h asize k bs)) =
         best_fit h (cs @ take (10 - k) (fits h asize bs))"
  using assms
proof (induction bs arbitrary: cs k)
  case Nil
  show ?case by (simp add: fits_def)
next
  case (Cons b bs)
  show ?case
  proof (cases "10 \<le> k")
    case True
    then show ?thesis by (simp add: fits_def)
  next
    case k: False
    then obtain j where j: "10 - k = Suc j" "9 - k = j" by (cases "10 - k") auto
    show ?thesis
    proof (cases "block_size h b = asize")
      case True
      have a: "\<forall>x \<in> set cs. unat (block_size h b) < unat (block_size h x)"
        using Cons.prems True by (simp add: word_less_nat_alt)
      have b: "\<forall>y \<in> set (take j (fits h asize bs)).
          unat (block_size h b) \<le> unat (block_size h y)"
        using True by (auto simp: fits_def word_le_nat_alt dest: in_set_takeD)
      have "arg_min_list (\<lambda>b. unat (block_size h b)) (cs @ b # take j (fits h asize bs)) = b"
        using a b by (rule arg_min_list_first)
      moreover have "arg_min_list (\<lambda>b. unat (block_size h b)) (cs @ b # []) = b"
        using a by (rule arg_min_list_first) simp
      ultimately show ?thesis
        using True k by (simp add: best_fit_def fits_def j)
    next
      case ne: False
      show ?thesis
      proof (cases "asize \<le> block_size h b")
        case True
        with ne have "asize < block_size h b" by simp
        with Cons.prems have "\<forall>c \<in> set (cs @ [b]). asize < block_size h c" by simp
        from Cons.IH[OF this, of "Suc k"] True ne k show ?thesis
          by (simp add: fits_def j)
      next
        case False
        with Cons.IH[OF Cons.prems, of k] ne k show ?thesis
          by (simp add: fits_def)
      qed
    qed
  qed
qed

lemma walk_exact_best_gen:
  assumes "\<forall>c \<in> set cs. asize < block_size h c"
    and "b \<in> set (walk h asize k bs)" and "block_size h b = asize"
  shows "best_fit h (cs @ fits h asize (walk h asize k bs)) = b"
  using assms
proof (induction bs arbitrary: cs k)
  case Nil
  then show ?case by simp
next
  case (Cons x bs)
  from Cons.prems(2) have k: "\<not> 10 \<le> k" by (auto split: if_splits)
  show ?case
  proof (cases "block_size h x = asize")
    case True
    with Cons.prems(2) k have bx: "b = x" by simp
    have "\<forall>c \<in> set cs. unat (block_size h x) < unat (block_size h c)"
      using Cons.prems(1) True by (simp add: word_less_nat_alt)
    then have "arg_min_list (\<lambda>b. unat (block_size h b)) (cs @ x # []) = x"
      by (rule arg_min_list_first) simp
    with True k bx show ?thesis by (simp add: best_fit_def fits_def)
  next
    case ne: False
    let ?k = "if asize \<le> block_size h x then Suc k else k"
    from ne k have w: "walk h asize k (x # bs) = x # walk h asize ?k bs" by simp
    from ne Cons.prems(3) have "b \<noteq> x" by auto
    with Cons.prems(2) w have bw: "b \<in> set (walk h asize ?k bs)" by simp
    show ?thesis
    proof (cases "asize \<le> block_size h x")
      case True
      with ne have "asize < block_size h x" by simp
      with Cons.prems(1) have "\<forall>c \<in> set (cs @ [x]). asize < block_size h c" by simp
      from Cons.IH[OF this, of "Suc k"] bw True Cons.prems(3) w show ?thesis
        by (simp add: fits_def)
    next
      case False
      with Cons.IH[OF Cons.prems(1), of k] bw Cons.prems(3) w show ?thesis
        by (simp add: fits_def)
    qed
  qed
qed

lemma reads_fits_le: "length (fits h asize (reads h asize bss)) \<le> 10 * length bss"
proof (induction bss)
  case Nil
  show ?case by (simp add: fits_def)
next
  case (Cons bs bss)
  have "length (fits h asize (walk h asize 0 bs)) \<le> 10"
    using walk_fits_le[of h asize 0 bs] by simp
  with Cons show ?case by (simp add: fits_def)
qed

lemma fit_class_inv:
  assumes "free_list h p bs"
    and "length cs \<le> 10" and "count = of_nat (length cs)" and "0 \<notin> set cs"
    and "\<forall>c \<in> set cs. asize < block_size h c"
    and "result = best_fit h cs" and "cs \<noteq> [] \<longrightarrow> smallest = block_size h result"
  shows "fit_class h asize p result smallest count vs =
           Some (best_fit h (cs @ take (10 - length cs) (fits h asize bs)),
                 vs @ walk h asize (length cs) bs)"
  using assms
proof (induction bs arbitrary: p cs result smallest count vs)
  case Nil
  then have "p = 0" by simp
  then have "fit_class h asize p result smallest count vs = Some (result, vs)"
    by (subst fit_class.simps) simp
  with Nil show ?case by (simp add: fits_def)
next
  case (Cons b bs)
  from Cons.prems(1) have p: "p = b" "b \<noteq> 0" and fl: "free_list h (GET h b) bs" by simp_all
  have r0: "result = 0 \<longleftrightarrow> cs = []"
  proof
    assume "result = 0"
    show "cs = []"
    proof (rule ccontr)
      assume "cs \<noteq> []"
      then have "best_fit h cs \<in> set cs" by (rule best_fit_in)
      with Cons.prems(4,6) \<open>result = 0\<close> show False by simp
    qed
  next
    assume "cs = []"
    with Cons.prems(6) show "result = 0" by (simp add: best_fit_def)
  qed
  show ?case
  proof (cases "length cs < 10")
    case False
    with Cons.prems(2) have l: "length cs = 10" by simp
    then have "\<not> count < 10" using Cons.prems(3) by simp
    then have "fit_class h asize p result smallest count vs = Some (result, vs)"
      by (subst fit_class.simps) simp
    with l Cons.prems(6) show ?thesis by simp
  next
    case True
    then have c10: "count < 10"
      using Cons.prems(2,3) by (simp add: count_lt_10)
    from True have k10: "\<not> 10 \<le> length cs" by simp
    from True obtain k where k: "10 - length cs = Suc k" "9 - length cs = k"
      by (cases "10 - length cs") auto
    have len': "length (cs @ [b]) \<le> 10" using True by simp
    have cnt': "count + 1 = of_nat (length (cs @ [b]))" using Cons.prems(3) by simp
    have nz': "0 \<notin> set (cs @ [b])" using Cons.prems(4) p by auto
    show ?thesis
    proof (cases "asize \<le> block_size h b")
      case False
      then have f: "fits h asize (b # bs) = fits h asize bs" by (simp add: fits_def)
      from False have w: "walk h asize (length cs) (b # bs) = b # walk h asize (length cs) bs"
        using k10 by auto
      from Cons.IH[OF fl Cons.prems(2-7), of "vs @ [b]"] have
        "fit_class h asize (GET h b) result smallest count (vs @ [b]) =
           Some (best_fit h (cs @ take (10 - length cs) (fits h asize bs)),
                 (vs @ [b]) @ walk h asize (length cs) bs)" .
      moreover have "fit_class h asize p result smallest count vs =
          fit_class h asize (GET h b) result smallest count (vs @ [b])"
        using p c10 False by (subst fit_class.simps) (simp add: block_size_def)
      ultimately show ?thesis by (simp only: f w append_assoc append_Cons append_Nil)
    next
      case fit: True
      then have f: "fits h asize (b # bs) = b # fits h asize bs" by (simp add: fits_def)
      have tk: "cs @ take (10 - length cs) (fits h asize (b # bs)) =
                (cs @ [b]) @ take (10 - length (cs @ [b])) (fits h asize bs)"
        by (simp add: f k)
      show ?thesis
      proof (cases "block_size h b = asize")
        case exact: True
        have new: "result = 0 \<or> block_size h b < smallest"
        proof (cases "cs = []")
          case True
          with r0 show ?thesis by simp
        next
          case False
          then have "result \<in> set cs" using Cons.prems(6) by (simp add: best_fit_in)
          with Cons.prems(5) have "asize < block_size h result" by simp
          with False Cons.prems(7) exact show ?thesis by simp
        qed
        have "fit_class h asize p result smallest count vs = Some (b, vs @ [b])"
          using p c10 fit exact new by (subst fit_class.simps) (auto simp: block_size_def)
        moreover have "best_fit h (cs @ take (10 - length cs) (fits h asize (b # bs))) = b"
        proof -
          have "\<forall>x \<in> set cs. unat (block_size h b) < unat (block_size h x)"
            using Cons.prems(5) exact by (simp add: word_less_nat_alt)
          moreover have "\<forall>y \<in> set (take k (fits h asize bs)).
              unat (block_size h b) \<le> unat (block_size h y)"
            using exact by (auto simp: fits_def word_le_nat_alt dest: in_set_takeD)
          ultimately have "arg_min_list (\<lambda>b. unat (block_size h b))
              (cs @ b # take k (fits h asize bs)) = b"
            by (rule arg_min_list_first)
          then show ?thesis by (simp add: best_fit_def f k)
        qed
        moreover have "walk h asize (length cs) (b # bs) = [b]"
          using exact k10 by simp
        ultimately show ?thesis by simp
      next
        case nex: False
        with fit have gt: "asize < block_size h b" by simp
        have big': "\<forall>c \<in> set (cs @ [b]). asize < block_size h c"
          using Cons.prems(5) gt by simp
        have w: "walk h asize (length cs) (b # bs) = b # walk h asize (length (cs @ [b])) bs"
          using nex fit k10 by simp
        show ?thesis
        proof (cases "result = 0 \<or> block_size h b < smallest")
          case True
          have bf: "b = best_fit h (cs @ [b])"
          proof (cases "cs = []")
            case True
            then show ?thesis by (simp add: best_fit_def)
          next
            case False
            with True r0 Cons.prems(6,7) show ?thesis by (simp add: best_fit_snoc)
          qed
          have sm: "cs @ [b] \<noteq> [] \<longrightarrow> block_size h b = block_size h b" by simp
          from Cons.IH[OF fl len' cnt' nz' big' bf sm, of "vs @ [b]"] have
            "fit_class h asize (GET h b) b (block_size h b) (count + 1) (vs @ [b]) =
               Some (best_fit h ((cs @ [b]) @ take (10 - length (cs @ [b])) (fits h asize bs)),
                     (vs @ [b]) @ walk h asize (length (cs @ [b])) bs)" .
          moreover have "fit_class h asize p result smallest count vs =
              fit_class h asize (GET h b) b (block_size h b) (count + 1) (vs @ [b])"
            using p c10 fit nex True by (subst fit_class.simps) (auto simp: block_size_def)
          ultimately show ?thesis by (simp only: tk w append_assoc append_Cons append_Nil)
        next
          case False
          then have ne: "cs \<noteq> []" using r0 by simp
          with False Cons.prems(6,7) have bf: "result = best_fit h (cs @ [b])"
            by (simp add: best_fit_snoc)
          have sm: "cs @ [b] \<noteq> [] \<longrightarrow> smallest = block_size h result"
            using ne Cons.prems(7) by simp
          from Cons.IH[OF fl len' cnt' nz' big' bf sm, of "vs @ [b]"] have
            "fit_class h asize (GET h b) result smallest (count + 1) (vs @ [b]) =
               Some (best_fit h ((cs @ [b]) @ take (10 - length (cs @ [b])) (fits h asize bs)),
                     (vs @ [b]) @ walk h asize (length (cs @ [b])) bs)" .
          moreover have "fit_class h asize p result smallest count vs =
              fit_class h asize (GET h b) result smallest (count + 1) (vs @ [b])"
            using p c10 fit nex False by (subst fit_class.simps) (auto simp: block_size_def)
          ultimately show ?thesis by (simp only: tk w append_assoc append_Cons append_Nil)
        qed
      qed
    qed
  qed
qed

lemma fit_class_spec:
  assumes "free_list h p bs"
  shows "fit_class h asize p 0 (- 1) 0 vs =
           Some (best_fit h (take 10 (fits h asize bs)), vs @ walk h asize 0 bs)"
  using fit_class_inv[OF assms, of "[]" 0 asize 0 "- 1" vs]
  by (simp add: best_fit_def)

lemma unat_seg_off:
  fixes p :: word64
  assumes "unat p + 40 < 2 ^ 64" and "k \<le> 5"
  shows "unat (p + 8 * of_nat k) = unat p + 8 * k"
proof -
  have "unat (8 * of_nat k :: word64) = 8 * k"
    using assms(2) by (simp add: unat_word_ariths unat_of_nat)
  moreover from this assms have "unat p + unat (8 * of_nat k :: word64) < 2 ^ LENGTH(64)"
    by simp
  ultimately show ?thesis
    by (simp add: unat_add_lem[THEN iffD1])
qed

lemma fit_classes_spec:
  assumes ls: "last_segp h = seg_listp h + 32" and nw: "unat (seg_listp h) + 40 < 2 ^ 64"
    and fl: "\<forall>c<5. free_list h (GET h (seg_listp h + 8 * of_nat c)) (L c)"
  shows "c \<le> 5 \<Longrightarrow> fit_classes h asize (seg_listp h + 8 * of_nat c) vs =
           Some (first_fit_from h asize (map L [c..<5]), vs @ reads h asize (map L [c..<5]))"
proof (induction "5 - c" arbitrary: c vs)
  case 0
  then have c: "c = 5" by simp
  have "unat (seg_listp h + 8 * of_nat c) = unat (seg_listp h) + 40"
    using unat_seg_off[OF nw, of 5] c by simp
  moreover have "unat (seg_listp h + 32) = unat (seg_listp h) + 32"
    using unat_seg_off[OF nw, of 4] by simp
  ultimately have "\<not> seg_listp h + 8 * of_nat c \<le> last_segp h"
    by (simp add: ls word_le_nat_alt)
  then have "fit_classes h asize (seg_listp h + 8 * of_nat c) vs = Some (0, vs)"
    by (subst fit_classes.simps) simp
  with c show ?case by simp
next
  case (Suc k)
  then have c: "c < 5" by simp
  then have upt: "[c..<5] = c # [Suc c..<5]" by (simp add: upt_conv_Cons)
  have "unat (seg_listp h + 8 * of_nat c) = unat (seg_listp h) + 8 * c"
    using unat_seg_off[OF nw, of c] c by simp
  moreover have "unat (seg_listp h + 32) = unat (seg_listp h) + 32"
    using unat_seg_off[OF nw, of 4] by simp
  ultimately have le: "seg_listp h + 8 * of_nat c \<le> last_segp h"
    using c by (simp add: ls word_le_nat_alt)
  from fl c have "free_list h (GET h (seg_listp h + 8 * of_nat c)) (L c)" by simp
  from fit_class_spec[OF this, of asize vs] have
    f1: "fit_class h asize (GET h (seg_listp h + 8 * of_nat c)) 0 (- 1) 0 vs =
           Some (best_fit h (take 10 (fits h asize (L c))), vs @ walk h asize 0 (L c))" .
  have nxt: "seg_listp h + 8 * of_nat c + 8 = seg_listp h + 8 * of_nat (Suc c)"
    by simp
  from Suc.hyps(2) have k: "k = 5 - Suc c" by simp
  from Suc.hyps(1)[OF k, of "vs @ walk h asize 0 (L c)"] c have
    f2: "fit_classes h asize (seg_listp h + 8 * of_nat (Suc c)) (vs @ walk h asize 0 (L c)) =
           Some (first_fit_from h asize (map L [Suc c..<5]),
                 (vs @ walk h asize 0 (L c)) @ reads h asize (map L [Suc c..<5]))"
    by simp
  from f2 have f2': "fit_classes h asize (seg_listp h + 8 * of_nat c + 8)
        (vs @ walk h asize 0 (L c)) =
           Some (first_fit_from h asize (map L [Suc c..<5]),
                 (vs @ walk h asize 0 (L c)) @ reads h asize (map L [Suc c..<5]))"
    by (simp only: nxt)
  show ?case
  proof (cases "best_fit h (take 10 (fits h asize (L c))) = 0")
    case True
    then have "fit_classes h asize (seg_listp h + 8 * of_nat c) vs =
        Some (first_fit_from h asize (map L [Suc c..<5]),
              (vs @ walk h asize 0 (L c)) @ reads h asize (map L [Suc c..<5]))"
      using le f1 f2' by (subst fit_classes.simps) simp
    with True show ?thesis by (simp add: upt)
  next
    case False
    then have "fit_classes h asize (seg_listp h + 8 * of_nat c) vs =
        Some (best_fit h (take 10 (fits h asize (L c))), vs @ walk h asize 0 (L c))"
      using le f1 by (subst fit_classes.simps) simp
    with False show ?thesis by (simp add: upt)
  qed
qed

text \<open>
  Claim C6, as the code has it. In a heap whose five class heads start free lists that end
  in \<open>NULL\<close>, \<open>find_fit\<close> returns. From the class of \<open>asize\<close> upwards it
  takes the first class whose first ten fitting blocks give a block, and the block is the
  first one of the least size among these ten. The nodes it reads are, class after class,
  the ones of the walk: along each list up to the tenth fitting block, or up to a block of
  exactly \<open>asize\<close>, which ends the walk at once and is the block returned. So each class
  has at most ten fitting blocks among the nodes read, and the whole search at most
  \<open>10 * SEGS = 50\<close>. The walk counts fitting blocks only and reads every smaller block
  without counting it: the number of nodes read is the length of the walks, which no
  constant bounds.
\<close>

theorem find_fit_first_best_of_ten:
  assumes "last_segp h = seg_listp h + 32" and "unat (seg_listp h) + 40 < 2 ^ 64"
    and "\<forall>c<5. free_list h (GET h (seg_listp h + 8 * of_nat c)) (L c)"
  shows "find_fit h asize =
           Some (first_fit_from h asize (map L [unat (bucket asize) div 8..<5])) \<and>
         find_fit_reads h asize = Some (reads h asize (map L [unat (bucket asize) div 8..<5])) \<and>
         find_fit_visits h asize =
           Some (length (reads h asize (map L [unat (bucket asize) div 8..<5]))) \<and>
         length (fits h asize (reads h asize (map L [unat (bucket asize) div 8..<5]))) \<le> 10 * 5 \<and>
         (\<forall>c<5. length (fits h asize (walk h asize 0 (L c))) \<le> 10 \<and>
                best_fit h (take 10 (fits h asize (L c))) =
                  best_fit h (fits h asize (walk h asize 0 (L c))) \<and>
                (\<forall>b \<in> set (walk h asize 0 (L c)). block_size h b = asize \<longrightarrow>
                   last (walk h asize 0 (L c)) = b \<and>
                   best_fit h (take 10 (fits h asize (L c))) = b))"
proof -
  from bucket_range[of asize] obtain k where k: "k \<le> 4" "bucket asize = 8 * of_nat k" by blast
  then have "unat (bucket asize) = 8 * k"
    by (simp add: unat_word_ariths unat_of_nat)
  then have c0: "unat (bucket asize) div 8 = k" by simp
  from k have "k \<le> 5" by simp
  from fit_classes_spec[OF assms this, of asize "[]"] have
    fc: "fit_classes h asize (seg_listp h + 8 * of_nat k) [] =
       Some (first_fit_from h asize (map L [k..<5]), reads h asize (map L [k..<5]))"
    by simp
  have 1: "find_fit h asize = Some (first_fit_from h asize (map L [k..<5]))"
    using fc by (simp add: find_fit_def k(2))
  have 2: "find_fit_reads h asize = Some (reads h asize (map L [k..<5]))"
    using fc by (simp add: find_fit_reads_def k(2))
  then have 3: "find_fit_visits h asize = Some (length (reads h asize (map L [k..<5])))"
    by (simp add: find_fit_visits_def)
  have "length (fits h asize (reads h asize (map L [k..<5]))) \<le> 10 * length (map L [k..<5])"
    by (rule reads_fits_le)
  then have 4: "length (fits h asize (reads h asize (map L [k..<5]))) \<le> 10 * 5"
    by simp
  have 5: "length (fits h asize (walk h asize 0 bs)) \<le> 10 \<and>
           best_fit h (take 10 (fits h asize bs)) = best_fit h (fits h asize (walk h asize 0 bs)) \<and>
           (\<forall>b \<in> set (walk h asize 0 bs). block_size h b = asize \<longrightarrow>
               last (walk h asize 0 bs) = b \<and> best_fit h (take 10 (fits h asize bs)) = b)"
    for bs
  proof -
    have a: "length (fits h asize (walk h asize 0 bs)) \<le> 10"
      using walk_fits_le[of h asize 0 bs] by simp
    have b: "best_fit h (take 10 (fits h asize bs)) =
             best_fit h (fits h asize (walk h asize 0 bs))"
      using best_fit_walk[of "[]" asize h 0 bs] by simp
    have c: "last (walk h asize 0 bs) = x \<and> best_fit h (take 10 (fits h asize bs)) = x"
      if "x \<in> set (walk h asize 0 bs)" "block_size h x = asize" for x
      using walk_exact_last[OF that] walk_exact_best_gen[of "[]" asize h x 0 bs] that b
      by simp
    from a b c show ?thesis by blast
  qed
  from 1 2 3 4 5 show ?thesis
    unfolding c0 by blast
qed

lemma word64_cmp_1:
  "(numeral n :: word64) \<le> 1 \<longleftrightarrow> unat (numeral n :: word64) \<le> 1"
  "(1 :: word64) \<le> numeral n \<longleftrightarrow> 1 \<le> unat (numeral n :: word64)"
  "(numeral n :: word64) < 1 \<longleftrightarrow> unat (numeral n :: word64) < 1"
  "(1 :: word64) < numeral n \<longleftrightarrow> 1 < unat (numeral n :: word64)"
  by (simp_all add: word_le_nat_alt word_less_nat_alt)

lemmas mm_defs = word64_cmp_1 mem_init_def mm_init_def mem_sbrk_def extend_heap_def coalesce_def
  insert_root_def splice_together_def place_def malloc_def free_def realloc_def calloc_def
  memset_def find_fit_def find_fit_reads_def find_fit_visits_def fit_classes.simps fit_class.simps
  PUT_def GET_def GET_SIZE_def GET_ALLOC_def PACK_def HDRP_def FTRP_def NEXT_BLKP_def
  PREV_BLKP_def NEXT_PTR_def PREV_PTR_def NEXT_FREEBLKP_def PREV_FREEBLKP_def ALIGN_def
  bucket_def Let_def

lemmas list_defs = best_fit_def fits_def block_size_def GET_SIZE_def GET_def HDRP_def

lemma heap_W_class_0: "free_list heap_W (GET heap_W 4104) list_W"
  by (simp add: heap_W_def list_W_def GET_def)

lemma heap_W_class_other:
  "free_list heap_W (GET heap_W 4112) []" "free_list heap_W (GET heap_W 4120) []"
  "free_list heap_W (GET heap_W 4128) []" "free_list heap_W (GET heap_W 4136) []"
  by (simp_all add: heap_W_def GET_def)

lemma heap_W_lists:
  "last_segp heap_W = seg_listp heap_W + 32 \<and> unat (seg_listp heap_W) + 40 < 2 ^ 64 \<and>
   (\<forall>c<5. free_list heap_W (GET heap_W (seg_listp heap_W + 8 * of_nat c))
            (if c = 0 then list_W else []))"
proof -
  have s: "seg_listp heap_W = 4104" "last_segp heap_W = 4136" by (simp_all add: heap_W_def)
  have e: "c < 5 \<Longrightarrow> c = 0 \<or> c = 1 \<or> c = 2 \<or> c = 3 \<or> c = 4" for c :: nat by arith
  have "free_list heap_W (GET heap_W (seg_listp heap_W + 8 * of_nat c))
            (if c = 0 then list_W else [])" if "c < 5" for c
    using e[OF that] heap_W_class_0 heap_W_class_other by (auto simp: s)
  then show ?thesis by (simp add: s)
qed

lemma heap_W_sizes:
  "block_size heap_W 4168 = 32"
  "block_size heap_W 4232 = 128"
  "block_size heap_W 4392 = 96"
  "block_size heap_W 4520 = 112"
  "block_size heap_W 4664 = 96"
  "block_size heap_W 4792 = 96"
  "block_size heap_W 4920 = 96"
  "block_size heap_W 5048 = 96"
  "block_size heap_W 5176 = 96"
  "block_size heap_W 5304 = 96"
  "block_size heap_W 5432 = 96"
  "block_size heap_W 5560 = 64"
  by (simp_all add: block_size_def GET_SIZE_def GET_def HDRP_def heap_W_def)

lemma bucket_W: "unat (bucket 64) div 8 = 0" "unat (bucket 96) div 8 = 0"
  "unat (bucket 112) div 8 = 0"
  by (simp_all add: bucket_def word64_cmp_1)

lemma upt5: "[0..<5] = [0, 1, 2, 3, 4]" by (simp add: upt_rec)

lemmas list_W_eval = upt5 list_W_def best_fit_def fits_def heap_W_sizes

lemma W64: "first_fit_from heap_W 64 (map (\<lambda>c. if c = 0 then list_W else []) [0..<5]) = 4392"
  by (simp add: list_W_eval)

lemma R64: "reads heap_W 64 (map (\<lambda>c. if c = 0 then list_W else []) [0..<5]) = take 11 list_W"
  by (simp add: list_W_eval)

lemma W96: "first_fit_from heap_W 96 (map (\<lambda>c. if c = 0 then list_W else []) [0..<5]) = 4392"
  by (simp add: list_W_eval)

lemma R96: "reads heap_W 96 (map (\<lambda>c. if c = 0 then list_W else []) [0..<5]) = take 3 list_W"
  by (simp add: list_W_eval)

lemma W112: "first_fit_from heap_W 112 (map (\<lambda>c. if c = 0 then list_W else []) [0..<5]) = 4520"
  by (simp add: list_W_eval)

lemma R112: "reads heap_W 112 (map (\<lambda>c. if c = 0 then list_W else []) [0..<5]) = take 4 list_W"
  by (simp add: list_W_eval)


theorem find_fit_first_best_of_ten_witness:
  "last_segp heap_W = seg_listp heap_W + 32 \<and> unat (seg_listp heap_W) + 40 < 2 ^ 64 \<and>
   free_list heap_W (GET heap_W (seg_listp heap_W + 8 * 0)) list_W \<and>
   free_list heap_W (GET heap_W (seg_listp heap_W + 8 * 1)) [] \<and>
   free_list heap_W (GET heap_W (seg_listp heap_W + 8 * 2)) [] \<and>
   free_list heap_W (GET heap_W (seg_listp heap_W + 8 * 3)) [] \<and>
   free_list heap_W (GET heap_W (seg_listp heap_W + 8 * 4)) [] \<and>
   map (block_size heap_W) list_W = [32, 128, 96, 112, 96, 96, 96, 96, 96, 96, 96, 64] \<and>
   find_fit heap_W 64 = Some 4392 \<and> find_fit_reads heap_W 64 = Some (take 11 list_W) \<and>
   find_fit_visits heap_W 64 = Some 11 \<and>
   find_fit heap_W 96 = Some 4392 \<and> find_fit_reads heap_W 96 = Some (take 3 list_W) \<and>
   find_fit_visits heap_W 96 = Some 3 \<and>
   find_fit heap_W 112 = Some 4520 \<and> find_fit_reads heap_W 112 = Some (take 4 list_W) \<and>
   find_fit_visits heap_W 112 = Some 4"
proof -
  let ?L = "\<lambda>c :: nat. if c = 0 then list_W else []"
  from heap_W_lists have a: "last_segp heap_W = seg_listp heap_W + 32"
    and b: "unat (seg_listp heap_W) + 40 < 2 ^ 64"
    and c: "\<forall>c<5. free_list heap_W (GET heap_W (seg_listp heap_W + 8 * of_nat c)) (?L c)"
    by simp_all
  have l: "length list_W = 12" by (simp add: list_W_def)
  have 1: "find_fit heap_W 64 = Some 4392 \<and> find_fit_reads heap_W 64 = Some (take 11 list_W) \<and>
      find_fit_visits heap_W 64 = Some 11"
    using find_fit_first_best_of_ten[OF a b c, of 64] l
    by (simp only: bucket_W W64 R64 length_take) simp
  have 2: "find_fit heap_W 96 = Some 4392 \<and> find_fit_reads heap_W 96 = Some (take 3 list_W) \<and>
      find_fit_visits heap_W 96 = Some 3"
    using find_fit_first_best_of_ten[OF a b c, of 96] l
    by (simp only: bucket_W W96 R96 length_take) simp
  have 3: "find_fit heap_W 112 = Some 4520 \<and> find_fit_reads heap_W 112 = Some (take 4 list_W) \<and>
      find_fit_visits heap_W 112 = Some 4"
    using find_fit_first_best_of_ten[OF a b c, of 112] l
    by (simp only: bucket_W W112 R112 length_take) simp
  have 4: "map (block_size heap_W) list_W = [32, 128, 96, 112, 96, 96, 96, 96, 96, 96, 96, 64]"
    by (simp add: list_W_def heap_W_sizes)
  have 5: "free_list heap_W (GET heap_W (seg_listp heap_W + 8 * 0)) list_W \<and>
   free_list heap_W (GET heap_W (seg_listp heap_W + 8 * 1)) [] \<and>
   free_list heap_W (GET heap_W (seg_listp heap_W + 8 * 2)) [] \<and>
   free_list heap_W (GET heap_W (seg_listp heap_W + 8 * 3)) [] \<and>
   free_list heap_W (GET heap_W (seg_listp heap_W + 8 * 4)) []"
    using heap_W_class_0 heap_W_class_other by (simp add: heap_W_def)
  from a b 1 2 3 4 5 show ?thesis by blast
qed

text \<open>
  Against claim C6 as stated: in \<open>heap_B\<close> a request for 64 bytes starts in class 0,
  whose 66 free blocks of 32 bytes are all too small. The search reads the header of each
  of them, more than \<open>10 * SEGS = 50\<close> nodes, and finds no block.
\<close>

theorem find_fit_visits_counterexample:
  "find_fit_visits heap_B 64 = Some 66 \<and> find_fit heap_B 64 = Some 0"
  by (simp add: find_fit_def find_fit_reads_def find_fit_visits_def fit_classes.simps
      fit_class.simps bucket_def word64_cmp_1 heap_B_def GET_def GET_SIZE_def HDRP_def)

subsection \<open>Requests whose adjusted size wraps around\<close>

lemma mm_init_heap_A: "mm_init (mem_init 4096 1048576) = (0, heap_A)"
  by (simp add: mm_defs heap_A_def fun_eq_iff cong: let_weak_cong)

lemma mm_init_small: "mm_init (mem_init 4096 336) = (0, heap_A\<lparr>mem_max_addr := 4432\<rparr>)"
  by (simp add: mm_defs heap_A_def fun_eq_iff cong: let_weak_cong)

lemma malloc_heap_C: "malloc heap_A 32 = Some (4168, heap_C)"
  by (simp add: mm_defs heap_A_def heap_C_def fun_eq_iff cong: let_weak_cong)

text \<open>
  Claim C1, at the request \<open>malloc(2^64 - 8)\<close> on the heap that \<open>mm_init\<close> has
  built. The adjusted size \<open>ALIGN(size + QSIZE)\<close> wraps around to 8, \<open>find_fit\<close>
  takes the free block of 264 bytes and \<open>place\<close> splits it: the call returns the
  pointer 4168 to a block, the first one after the prologue, whose header holds the size 8,
  less than the least block size 32.
\<close>

theorem malloc_wrapped_request_block:
  "mm_init (mem_init 4096 1048576) = (0, heap_A) \<and>
   (\<exists>h. malloc heap_A 18446744073709551608 = Some (4168, h) \<and>
        NEXT_BLKP h (heap_listp h) = 4168 \<and>
        GET_SIZE h (HDRP 4168) = 8 \<and> GET_ALLOC h (HDRP 4168) = 1)"
  using mm_init_heap_A by (simp add: mm_defs heap_A_def cong: let_weak_cong)

text \<open>
  Claim C4, at the request \<open>realloc(p, 2^64 - 8)\<close> for the block \<open>p = malloc(32)\<close>
  whose first eight bytes the program has set to 0xAB. The adjusted size wraps around to 8,
  the call takes the path that shrinks the block in place and writes the header of the
  split-off remainder at \<open>p\<close>: it returns \<open>p\<close>, and the first byte of the payload is
  0 and no longer 0xAB.
\<close>

theorem realloc_wrapped_request_payload:
  "malloc heap_A 32 = Some (4168, heap_C) \<and>
   byte_at (PUT heap_C 4168 12370169555311111083) 4168 = 171 \<and>
   (\<exists>h. realloc (PUT heap_C 4168 12370169555311111083) 4168 18446744073709551608 =
          Some (4168, h) \<and> byte_at h 4168 = 0)"
  using malloc_heap_C by (simp add: mm_defs heap_C_def byte_at_def cong: let_weak_cong)

text \<open>
  Claim C9, at \<open>calloc(1, 1000)\<close> on a heap whose memory region is used up by
  \<open>mm_init\<close> (336 bytes). No free block fits, \<open>mem_sbrk\<close> fails and
  \<open>malloc\<close> returns \<open>NULL\<close>; \<open>calloc\<close> passes the null pointer to
  \<open>memset\<close> with the count 1000 and does not return \<open>NULL\<close>.
\<close>

theorem calloc_exhausted_heap_fault:
  "mm_init (mem_init 4096 336) = (0, heap_A\<lparr>mem_max_addr := 4432\<rparr>) \<and>
   malloc (heap_A\<lparr>mem_max_addr := 4432\<rparr>) (1 * 1000) = Some (0, heap_A\<lparr>mem_max_addr := 4432\<rparr>) \<and>
   calloc (heap_A\<lparr>mem_max_addr := 4432\<rparr>) 1 1000 = Some (Inl Segfault)"
  using mm_init_small by (simp add: mm_defs heap_A_def cong: let_weak_cong)

section \<open>Properties of the proxy worker\<close>

lemmas proxy_defs = new_request_def post_env_def read_request_def read_uri_def scan_word_def
  isspace_def strcasecmp_def strncasecmp_def tolower_def remove_newline_def atoi_def strtol_def
  digit_val_def int_wrap_def isdigit_def cat_requesthdrs_def Let_def

text \<open>
  Claim C7, at the request line \<open>POST http://example.com/index.html HTTP/1.0\<close>. The
  worker sends the 501 reply and goes on: it connects to \<open>example.com\<close> at port 80
  and sends the request as a \<open>GET\<close>, and the connection to the client is still open
  then.
\<close>

theorem non_get_request_reaches_server:
  "take 1 (new_request post_env) =
     [Write_client (''HTTP/1.0 501 Not Implemented'' @ [CHR 0x0D, CHR 0x0A])] \<and>
   new_request post_env ! 4 = Connect ''example.com'' ''80'' \<and>
   new_request post_env ! 5 = Write_server (''GET /index.html HTTP/1.0'' @ [CHR 0x0D, CHR 0x0A]) \<and>
   Close_client \<notin> set (take 6 (new_request post_env))"
  by (simp add: proxy_defs clienterror_def cong: let_weak_cong)

end
